theory Spec2Isabelle
  imports Complex_Main "HOL-Library.Word"
begin

unbundle bit_operations_syntax

section \<open>Data model\<close>

text \<open>
  The program of \<^verbatim>\<open>hand-detection.ipynb\<close> works on NumPy arrays and calls OpenCV,
  NumPy and scikit-learn. The arrays are modelled as follows.
  \<^item> A two-dimensional array is the list of its rows. An 8-bit image (\<^verbatim>\<open>uint8\<close>) has
    pixels of type \<open>8 word\<close>; the accumulated background (\<^verbatim>\<open>float32\<close>) has pixels of
    type \<open>real\<close>.
  \<^item> A floating-point value is the real number it stands for. Where the result of the
    code depends on it, the rounding of an operation to the nearest value of the format
    (ties to even) is written out: in the accumulation of the background, which works
    in \<^verbatim>\<open>float32\<close>, in the radius of the circular region and in the quarter of its
    circumference, computed in \<^verbatim>\<open>float64\<close>. Overflow to infinity is beyond the values
    that occur and is not modelled.
  \<^item> A contour (an array of shape \<^verbatim>\<open>(n, 1, 2)\<close>) is the list of its points \<open>(x, y)\<close>.
    Coordinates are \<^verbatim>\<open>int32\<close> values, modelled as integers; where the code adds two of
    them the wrap-around of the 32-bit addition is written out.
  \<^item> An exception is a value \<open>Inl e\<close> of the result type \<open>error + 'a\<close>.
  \<^item> An OpenCV function hands an empty matrix (one without pixels) to Python as
    \<^verbatim>\<open>None\<close>: such a result is an \<open>option\<close>.
\<close>

datatype error = TypeError | ValueError | AttributeError | CvError

type_synonym 'a grid = "'a list list"
type_synonym gray = "8 word grid"
type_synonym accum = "real grid"
type_synonym point = "int \<times> int"
type_synonym contour = "point list"

text \<open>The shape of an array, as the lengths of its rows: two rectangular arrays have
  the same NumPy shape exactly when these lists are equal.\<close>

definition shape :: "'a grid \<Rightarrow> nat list" where
  "shape g = map length g"

text \<open>The result of an OpenCV function as Python receives it.\<close>

definition py_array :: "'a grid \<Rightarrow> 'a grid option" where
  "py_array m = (if concat m = [] then None else Some m)"

subsection \<open>Floating-point rounding\<close>

text \<open>
  \<open>fl p emin x\<close> is the value of the binary format with \<open>p\<close> significant bits and the
  least exponent \<open>emin\<close> that is nearest to \<open>x\<close>, ties going to the even significand:
  \<open>x\<close> is scaled by the unit in the last place of its binade (of the least binade,
  for a subnormal value) and rounded to an integer.
\<close>

definition pow2 :: "int \<Rightarrow> real" where
  "pow2 k = (if 0 \<le> k then 2 ^ nat k else 1 / 2 ^ nat (- k))"

definition round_even :: "real \<Rightarrow> int" where
  "round_even q =
     (let f = \<lfloor>q\<rfloor>; r = q - of_int f
      in if r < 1 / 2 then f else if 1 / 2 < r then f + 1 else if even f then f else f + 1)"

definition binade :: "real \<Rightarrow> int" where
  "binade x = \<lfloor>log 2 \<bar>x\<bar>\<rfloor>"

definition fl :: "nat \<Rightarrow> int \<Rightarrow> real \<Rightarrow> real" where
  "fl p emin x =
     (if x = 0 then 0
      else (let e = max (binade x) emin; u = pow2 (e - int p + 1)
            in of_int (round_even (x / u)) * u))"

definition fl32 :: "real \<Rightarrow> real" where
  "fl32 x = fl 24 (- 126) x"

definition fl64 :: "real \<Rightarrow> real" where
  "fl64 x = fl 53 (- 1022) x"

text \<open>The 32-bit two's complement value of an integer: what a sum of two \<^verbatim>\<open>int32\<close>
  values is in NumPy.\<close>

definition wrap32 :: "int \<Rightarrow> int" where
  "wrap32 v = (v + 2 ^ 31) mod 2 ^ 32 - 2 ^ 31"

text \<open>\<^verbatim>\<open>np.float32(frame)\<close>: every 8-bit pixel promoted to floating point.\<close>

definition np_float32 :: "gray \<Rightarrow> accum" where
  "np_float32 frame = map (map (\<lambda>p. real (unat p))) frame"

section \<open>Background accumulation\<close>

text \<open>The notebook's global \<^verbatim>\<open>accumulated_weight = 0.5\<close>.\<close>

definition accumulated_weight :: real where
  "accumulated_weight = 0.5"

text \<open>
  \<^verbatim>\<open>cv2.accumulateWeighted(src, dst, alpha)\<close> on \<^verbatim>\<open>float32\<close> arrays overwrites \<open>dst\<close>
  pixel by pixel with \<^verbatim>\<open>src*a + dst*b\<close>, where \<^verbatim>\<open>a = (float)alpha\<close> and \<^verbatim>\<open>b = 1 - a\<close>, in
  single precision: the two products and their sum are each rounded to \<^verbatim>\<open>float32\<close>.
  (A kernel that fuses \<^verbatim>\<open>dst*b\<close> with the addition rounds once less; for the weight 0.5,
  whose products are exact, it computes the same value.) Arrays of different sizes are
  rejected. The model returns the new contents of \<open>dst\<close>.
\<close>

definition accumulateWeighted :: "accum \<Rightarrow> accum \<Rightarrow> real \<Rightarrow> error + accum" where
  "accumulateWeighted src dst alpha =
     (if shape src = shape dst
      then (let a = fl32 alpha; b = fl32 (1 - a)
            in Inr (map2 (map2 (\<lambda>d s. fl32 (fl32 (s * a) + fl32 (d * b)))) dst src))
      else Inl CvError)"

text \<open>
  \<^verbatim>\<open>calc_accum_avg(frame, accumulated_weight, background)\<close>: the unset background is
  \<open>None\<close>. The returned array is the caller's new background.
\<close>

definition calc_accum_avg :: "gray \<Rightarrow> real \<Rightarrow> accum option \<Rightarrow> error + accum" where
  "calc_accum_avg frame weight background =
     (case background of
        None \<Rightarrow> Inr (np_float32 frame)
      | Some bg \<Rightarrow>
          (let frame_float32 = np_float32 frame
           in accumulateWeighted frame_float32 bg weight))"

text \<open>The warm-up of the session loop with one unchanging frame: \<open>k\<close> calls of
  \<^verbatim>\<open>background = calc_accum_avg(gray, accumulated_weight, background)\<close>, the first one
  on the unset background.\<close>

fun warm_up :: "nat \<Rightarrow> gray \<Rightarrow> error + accum option" where
  "warm_up 0 frame = Inr None"
| "warm_up (Suc k) frame =
     (case warm_up k frame of
        Inl e \<Rightarrow> Inl e
      | Inr background \<Rightarrow>
          (case calc_accum_avg frame accumulated_weight background of
             Inl e \<Rightarrow> Inl e
           | Inr bg \<Rightarrow> Inr (Some bg)))"

text \<open>The distance of two arrays of the same shape: the sum of the absolute
  differences of their pixels.\<close>

definition row_distance :: "real list \<Rightarrow> real list \<Rightarrow> real" where
  "row_distance r s = sum_list (map2 (\<lambda>a b. \<bar>a - b\<bar>) r s)"

definition grid_distance :: "accum \<Rightarrow> accum \<Rightarrow> real" where
  "grid_distance a b = sum_list (map2 row_distance a b)"

section \<open>The library interface\<close>

text \<open>
  Four computations of the libraries are not computed by the model but taken as
  parameters, so that every theorem below holds for whatever they return:
  \<^item> \<open>hull_points\<close>: the vertices \<^verbatim>\<open>cv2.convexHull\<close> returns for two or more points;
  \<^item> \<open>trace_contours\<close>: the border following of \<^verbatim>\<open>cv2.findContours\<close>;
  \<^item> \<open>circle_covers center radius thickness p\<close>: whether the rasterisation of
    \<^verbatim>\<open>cv2.circle\<close> paints the pixel \<open>p\<close>;
  \<^item> \<open>float_sq_distance c q\<close>: the \<^verbatim>\<open>float64\<close> value that scikit-learn's expansion
    \<^verbatim>\<open>|c|^2 - 2 c.q + |q|^2\<close> of the squared distance yields for coordinates so large
    that its terms are not exact.
\<close>

datatype retrieval = RETR_EXTERNAL
datatype approximation = CHAIN_APPROX_NONE | CHAIN_APPROX_SIMPLE
datatype threshold_type = THRESH_BINARY

record opencv =
  hull_points :: "contour \<Rightarrow> contour"
  trace_contours :: "retrieval \<Rightarrow> approximation \<Rightarrow> gray \<Rightarrow> contour list"
  circle_covers :: "point \<Rightarrow> int \<Rightarrow> int \<Rightarrow> point \<Rightarrow> bool"
  float_sq_distance :: "point \<Rightarrow> point \<Rightarrow> real"

definition findContours :: "opencv \<Rightarrow> gray \<Rightarrow> retrieval \<Rightarrow> approximation \<Rightarrow> contour list" where
  "findContours cv img mode method = trace_contours cv mode method img"

text \<open>
  \<^verbatim>\<open>cv2.convexHull(points)\<close>: OpenCV releases the output for an empty point set, which
  Python receives as \<^verbatim>\<open>None\<close>; the hull of one point is that point.
\<close>

definition convexHull :: "opencv \<Rightarrow> contour \<Rightarrow> contour option" where
  "convexHull cv points =
     (case points of
        [] \<Rightarrow> None
      | [p] \<Rightarrow> Some [p]
      | _ \<Rightarrow> Some (hull_points cv points))"

text \<open>
  \<^verbatim>\<open>cv2.circle(img, center, radius, color, thickness)\<close> paints the covered pixels of
  \<open>img\<close> with \<open>color\<close> and leaves the others; the pixel of column \<open>x\<close> and row \<open>y\<close>
  is the point \<open>(x, y)\<close>. A negative radius, a radius that does not fit a 32-bit
  \<^verbatim>\<open>int\<close> and a thickness above 32767 are rejected. The model returns the new contents of
  \<open>img\<close>.
\<close>

definition circle :: "opencv \<Rightarrow> gray \<Rightarrow> point \<Rightarrow> int \<Rightarrow> 8 word \<Rightarrow> int \<Rightarrow> error + gray" where
  "circle cv img center radius color thickness =
     (if radius < 0 \<or> 2 ^ 31 \<le> radius \<or> 32767 < thickness then Inl CvError
      else Inr (map (\<lambda>(y, row).
                  map (\<lambda>(x, p). if circle_covers cv center radius thickness (int x, int y)
                                 then color else p)
                      (enumerate 0 row))
                (enumerate 0 img)))"

section \<open>Segmentation\<close>

text \<open>Python's \<^verbatim>\<open>int(x)\<close> on a float, and the conversion of \<^verbatim>\<open>astype('uint8')\<close>: the
  fraction is dropped (rounding towards zero); the 8-bit result keeps the low byte.\<close>

definition py_int :: "real \<Rightarrow> int" where
  "py_int x = (if 0 \<le> x then \<lfloor>x\<rfloor> else \<lceil>x\<rceil>)"

definition astype_uint8 :: "accum \<Rightarrow> gray" where
  "astype_uint8 a = map (map (\<lambda>v. word_of_int (py_int v))) a"

text \<open>
  \<^verbatim>\<open>cv2.absdiff(src1, src2)\<close> on 8-bit arrays: the absolute difference of the pixels.
  Arrays of different sizes are rejected.
\<close>

definition absdiff_px :: "8 word \<Rightarrow> 8 word \<Rightarrow> 8 word" where
  "absdiff_px a b = (if a \<le> b then b - a else a - b)"

definition absdiff :: "gray \<Rightarrow> gray \<Rightarrow> error + gray option" where
  "absdiff src1 src2 =
     (if shape src1 = shape src2 then Inr (py_array (map2 (map2 absdiff_px) src1 src2))
      else Inl CvError)"

text \<open>\<^verbatim>\<open>cv2.threshold(src, thresh, maxval, cv2.THRESH_BINARY)\<close>, the returned image: a
  pixel above \<open>thresh\<close> becomes \<open>maxval\<close>, any other pixel 0. For the \<^verbatim>\<open>None\<close> that
  stands for an empty image the returned image is empty again.\<close>

definition threshold :: "gray option \<Rightarrow> int \<Rightarrow> 8 word \<Rightarrow> threshold_type \<Rightarrow> gray option" where
  "threshold src thresh maxval kind =
     (case src of
        None \<Rightarrow> None
      | Some img \<Rightarrow> py_array (map (map (\<lambda>p. if thresh < uint p then maxval else 0)) img))"

text \<open>
  \<^verbatim>\<open>cv2.contourArea(contour)\<close>: half the absolute value of the shoelace sum over the
  closed polygon, each point paired with its predecessor (the last point precedes
  the first); 0 for no points.
\<close>

fun shoelace :: "point \<Rightarrow> contour \<Rightarrow> int" where
  "shoelace prev [] = 0"
| "shoelace prev (p # ps) = (fst prev * snd p - fst p * snd prev) + shoelace p ps"

definition contourArea :: "contour \<Rightarrow> real" where
  "contourArea c = (if c = [] then 0 else \<bar>real_of_int (shoelace (last c) c) * 0.5\<bar>)"

text \<open>Python's \<^verbatim>\<open>max(xs, key=f)\<close>: the running best is replaced only by an element of
  strictly greater key; \<^verbatim>\<open>ValueError\<close> on an empty sequence.\<close>

fun max_from :: "('a \<Rightarrow> real) \<Rightarrow> 'a \<Rightarrow> 'a list \<Rightarrow> 'a" where
  "max_from key best [] = best"
| "max_from key best (x # xs) = (if key best < key x then max_from key x xs else max_from key best xs)"

definition py_max :: "'a list \<Rightarrow> ('a \<Rightarrow> real) \<Rightarrow> error + 'a" where
  "py_max xs key = (case xs of [] \<Rightarrow> Inl ValueError | x # rest \<Rightarrow> Inr (max_from key x rest))"

text \<open>\<^verbatim>\<open>segment(frame, background, threshold_min=25)\<close>; Python's \<^verbatim>\<open>None\<close> result is
  \<open>Inr None\<close>. On the \<^verbatim>\<open>None\<close> of an empty image, \<^verbatim>\<open>thresholded.copy()\<close> raises
  \<^verbatim>\<open>AttributeError\<close>.\<close>

definition segment :: "opencv \<Rightarrow> gray \<Rightarrow> accum \<Rightarrow> int \<Rightarrow> error + (gray \<times> contour) option" where
  "segment cv frame background threshold_min =
     (case absdiff (astype_uint8 background) frame of
        Inl e \<Rightarrow> Inl e
      | Inr diff \<Rightarrow>
          (case threshold diff threshold_min 255 THRESH_BINARY of
             None \<Rightarrow> Inl AttributeError
           | Some thresholded \<Rightarrow>
               (let contours = findContours cv thresholded RETR_EXTERNAL CHAIN_APPROX_SIMPLE
                in if contours = [] then Inr None
                   else (case py_max contours contourArea of
                           Inl e \<Rightarrow> Inl e
                         | Inr hand_segment \<Rightarrow> Inr (Some (thresholded, hand_segment))))))"

text \<open>The binarised difference in the words of the specification: a pixel is 255 where
  the absolute difference between the frame and the background, cast to the frame's
  8 bits, exceeds the threshold, and 0 elsewhere.\<close>

definition difference_mask :: "gray \<Rightarrow> accum \<Rightarrow> int \<Rightarrow> gray" where
  "difference_mask frame bg thresh =
     map2 (map2 (\<lambda>f b. if thresh < \<bar>uint f - uint (word_of_int (py_int b) :: 8 word)\<bar>
                         then 255 else 0))
          frame bg"

section \<open>Finger counting\<close>

text \<open>NumPy's \<^verbatim>\<open>argmin\<close> and \<^verbatim>\<open>argmax\<close>: the index of the first occurrence of the
  extreme value; \<^verbatim>\<open>ValueError\<close> on an empty array.\<close>

fun arg_scan :: "(int \<Rightarrow> int \<Rightarrow> bool) \<Rightarrow> nat \<Rightarrow> int \<Rightarrow> nat \<Rightarrow> int list \<Rightarrow> nat" where
  "arg_scan better bi bv i [] = bi"
| "arg_scan better bi bv i (v # vs) =
     (if better v bv then arg_scan better i v (Suc i) vs
      else arg_scan better bi bv (Suc i) vs)"

definition argmin :: "int list \<Rightarrow> error + nat" where
  "argmin vs = (case vs of [] \<Rightarrow> Inl ValueError | v # rest \<Rightarrow> Inr (arg_scan (<) 0 v 1 rest))"

definition argmax :: "int list \<Rightarrow> error + nat" where
  "argmax vs = (case vs of [] \<Rightarrow> Inl ValueError | v # rest \<Rightarrow> Inr (arg_scan (>) 0 v 1 rest))"

text \<open>The extreme points of the hull, \<^verbatim>\<open>(top, bottom, left, right)\<close>:
  \<^verbatim>\<open>conv_hull[conv_hull[:, :, 1].argmin()][0]\<close> and its three siblings.\<close>

definition extreme_points :: "contour \<Rightarrow> error + (point \<times> point \<times> point \<times> point)" where
  "extreme_points conv_hull =
     (case argmin (map snd conv_hull) of Inl e \<Rightarrow> Inl e | Inr t \<Rightarrow>
      (case argmax (map snd conv_hull) of Inl e \<Rightarrow> Inl e | Inr b \<Rightarrow>
       (case argmin (map fst conv_hull) of Inl e \<Rightarrow> Inl e | Inr l \<Rightarrow>
        (case argmax (map fst conv_hull) of Inl e \<Rightarrow> Inl e | Inr r \<Rightarrow>
           Inr (conv_hull ! t, conv_hull ! b, conv_hull ! l, conv_hull ! r)))))"

text \<open>The centre of the hand: \<^verbatim>\<open>cX = (left[0] + right[0]) // 2\<close> and
  \<^verbatim>\<open>cY = (top[1] + bottom[1]) // 2\<close>, the sums being \<^verbatim>\<open>int32\<close>.\<close>

definition hand_center :: "point \<Rightarrow> point \<Rightarrow> point \<Rightarrow> point \<Rightarrow> point" where
  "hand_center top' bottom left right =
     (wrap32 (fst left + fst right) div 2, wrap32 (snd top' + snd bottom) div 2)"

text \<open>The Euclidean distance of two points.\<close>

definition euclidean_distance :: "point \<Rightarrow> point \<Rightarrow> real" where
  "euclidean_distance p q = sqrt (real_of_int ((fst p - fst q)\<^sup>2 + (snd p - snd q)\<^sup>2))"

text \<open>
  \<^verbatim>\<open>pairwise.euclidean_distances([c], Y=ps)[0]\<close> converts the coordinates to \<^verbatim>\<open>float64\<close>,
  evaluates the squared distance as \<^verbatim>\<open>|c|^2 - 2 c.q + |q|^2\<close>, replaces a negative value
  by 0 and takes the square root, rounded to \<^verbatim>\<open>float64\<close>. For coordinates of magnitude
  at most \<open>2^24\<close> every term of the expansion is an integer below \<open>2^53\<close>, so that the
  squared distance is exact; beyond, it is the library's value.
\<close>

definition exact_coordinate :: "int \<Rightarrow> bool" where
  "exact_coordinate v = (\<bar>v\<bar> \<le> 2 ^ 24)"

definition sq_distance :: "opencv \<Rightarrow> point \<Rightarrow> point \<Rightarrow> real" where
  "sq_distance cv c q =
     (if exact_coordinate (fst c) \<and> exact_coordinate (snd c) \<and>
         exact_coordinate (fst q) \<and> exact_coordinate (snd q)
      then real_of_int ((fst c - fst q)\<^sup>2 + (snd c - snd q)\<^sup>2)
      else float_sq_distance cv c q)"

definition euclidean_distances :: "opencv \<Rightarrow> point \<Rightarrow> point list \<Rightarrow> real list" where
  "euclidean_distances cv c ps = map (\<lambda>q. fl64 (sqrt (max 0 (sq_distance cv c q)))) ps"

text \<open>\<^verbatim>\<open>distance.max()\<close>.\<close>

definition np_max :: "real list \<Rightarrow> error + real" where
  "np_max ds = (case ds of [] \<Rightarrow> Inl ValueError | d # rest \<Rightarrow> Inr (fold max rest d))"

text \<open>The centre of the hand and the radius of the circular region, \<open>(cX, cY, radius)\<close>:
  the part of \<^verbatim>\<open>count_fingers\<close> from the extreme points to
  \<^verbatim>\<open>radius = int(0.9 * max_distance)\<close>. The literal \<^verbatim>\<open>0.9\<close> is the \<^verbatim>\<open>float64\<close> nearest to
  it, and the product is rounded to \<^verbatim>\<open>float64\<close> before \<^verbatim>\<open>int\<close> drops its fraction.\<close>

definition hand_geometry :: "opencv \<Rightarrow> contour \<Rightarrow> error + (int \<times> int \<times> int)" where
  "hand_geometry cv conv_hull =
     (case extreme_points conv_hull of
        Inl e \<Rightarrow> Inl e
      | Inr (top', bottom, left, right) \<Rightarrow>
          (case hand_center top' bottom left right of
             (cX, cY) \<Rightarrow>
               (let distance = euclidean_distances cv (cX, cY) [left, right, top', bottom]
                in case np_max distance of
                     Inl e \<Rightarrow> Inl e
                   | Inr max_distance \<Rightarrow>
                       Inr (cX, cY, py_int (fl64 (fl64 0.9 * max_distance))))))"

text \<open>\<^verbatim>\<open>np.zeros(thresholded.shape[:2], dtype='uint8')\<close>.\<close>

definition np_zeros :: "gray \<Rightarrow> gray" where
  "np_zeros like = map (map (\<lambda>_. 0)) like"

text \<open>\<^verbatim>\<open>cv2.bitwise_and(src1, src2, mask=msk)\<close>: the conjunction of the two pixels where
  the mask is not 0, and 0 elsewhere; the three arrays must have one size.\<close>

definition bitwise_and :: "gray \<Rightarrow> gray \<Rightarrow> gray \<Rightarrow> error + gray option" where
  "bitwise_and src1 src2 msk =
     (if shape src1 = shape src2 \<and> shape msk = shape src1
      then Inr (py_array
                  (map2 (\<lambda>(r1, r2) rm. map2 (\<lambda>(a, b) m. if m = 0 then 0 else a AND b) (zip r1 r2) rm)
                        (zip src1 src2) msk))
      else Inl CvError)"

text \<open>The ring drawn into an empty image and intersected with the thresholded image:
  the two assignments to \<^verbatim>\<open>circular_roi\<close>.\<close>

definition circular_roi :: "opencv \<Rightarrow> gray \<Rightarrow> point \<Rightarrow> int \<Rightarrow> error + gray option" where
  "circular_roi cv thresholded center radius =
     (case circle cv (np_zeros thresholded) center radius 255 10 of
        Inl e \<Rightarrow> Inl e
      | Inr ring \<Rightarrow> bitwise_and thresholded thresholded ring)"

text \<open>\<^verbatim>\<open>cv2.boundingRect(contour)\<close>, as \<open>(x, y, w, h)\<close>: the smallest upright rectangle
  of pixels that holds every point.\<close>

definition boundingRect :: "contour \<Rightarrow> int \<times> int \<times> int \<times> int" where
  "boundingRect c =
     (case c of
        [] \<Rightarrow> (0, 0, 0, 0)
      | p # ps \<Rightarrow>
          (let xmin = fold min (map fst ps) (fst p); xmax = fold max (map fst ps) (fst p);
               ymin = fold min (map snd ps) (snd p); ymax = fold max (map snd ps) (snd p)
           in (xmin, ymin, xmax - xmin + 1, ymax - ymin + 1)))"

text \<open>The counting loop of \<^verbatim>\<open>count_fingers\<close>: \<^verbatim>\<open>count = 0\<close>, then one step for each
  contour, in order. In \<^verbatim>\<open>cY + (cY * 0.25)\<close> the product and the sum are exact in
  \<^verbatim>\<open>float64\<close> for a 32-bit \<open>cY\<close>; in \<^verbatim>\<open>2 * np.pi * radius * 0.25\<close> the constant \<^verbatim>\<open>np.pi\<close> is
  the \<^verbatim>\<open>float64\<close> nearest to \<open>\<pi>\<close> and every product is rounded. Both comparisons are
  with an integer and exact.\<close>

definition count_step :: "int \<Rightarrow> int \<Rightarrow> contour \<Rightarrow> int \<Rightarrow> int" where
  "count_step cY radius contour count =
     (case boundingRect contour of
        (x, y, w, h) \<Rightarrow>
          (let out_of_wrist = (real_of_int (y + h) < real_of_int cY + real_of_int cY * 0.25);
               limit_points = (real (length contour) <
                                 fl64 (fl64 (fl64 (2 * fl64 pi) * real_of_int radius) * 0.25))
           in if out_of_wrist \<and> limit_points then count + 1 else count))"

definition count_loop :: "int \<Rightarrow> int \<Rightarrow> contour list \<Rightarrow> int" where
  "count_loop cY radius contours = fold (count_step cY radius) contours 0"

text \<open>\<^verbatim>\<open>count_fingers(thresholded, hand_segment)\<close>. Subscripting the \<^verbatim>\<open>None\<close> that stands
  for an absent hull raises \<^verbatim>\<open>TypeError\<close>; on the \<^verbatim>\<open>None\<close> of an empty image,
  \<^verbatim>\<open>circular_roi.copy()\<close> raises \<^verbatim>\<open>AttributeError\<close>.\<close>

definition count_fingers :: "opencv \<Rightarrow> gray \<Rightarrow> contour \<Rightarrow> error + int" where
  "count_fingers cv thresholded hand_segment =
     (case convexHull cv hand_segment of
        None \<Rightarrow> Inl TypeError
      | Some conv_hull \<Rightarrow>
          (case hand_geometry cv conv_hull of
             Inl e \<Rightarrow> Inl e
           | Inr (cX, cY, radius) \<Rightarrow>
               (case circular_roi cv thresholded (cX, cY) radius of
                  Inl e \<Rightarrow> Inl e
                | Inr None \<Rightarrow> Inl AttributeError
                | Inr (Some roi) \<Rightarrow>
                    (let contours = findContours cv roi RETR_EXTERNAL CHAIN_APPROX_NONE
                     in Inr (count_loop cY radius contours)))))"

text \<open>The test of one step of the loop as a predicate: the contour ends above
  \<open>cY + 0.25 * cY\<close>, and has fewer points than the quarter of the circumference that
  the code computes in \<^verbatim>\<open>float64\<close>.\<close>

definition is_finger :: "int \<Rightarrow> int \<Rightarrow> contour \<Rightarrow> bool" where
  "is_finger cY r contour =
     (case boundingRect contour of
        (x, y, w, h) \<Rightarrow>
          real_of_int cY + 0.25 * real_of_int cY > real_of_int (y + h) \<and>
          real (length contour) < fl64 (fl64 (fl64 (2 * fl64 pi) * real_of_int r) * 0.25))"

text \<open>The finger test in the words of the specification, over the real numbers: the
  contour ends above \<open>cY + 0.25 * cY\<close>, and its point count is less than
  \<open>0.25 * 2\<pi> * r\<close>.\<close>

definition spec_is_finger :: "int \<Rightarrow> int \<Rightarrow> contour \<Rightarrow> bool" where
  "spec_is_finger cY r contour =
     (case boundingRect contour of
        (x, y, w, h) \<Rightarrow>
          real_of_int cY + 0.25 * real_of_int cY > real_of_int (y + h) \<and>
          real (length contour) < 0.25 * (2 * pi * real_of_int r))"

section \<open>The session loop\<close>

text \<open>
  One pass of the \<^verbatim>\<open>while True\<close> loop, from the grey, blurred region of interest
  \<open>gray\<close> on: the state is the pair of the globals \<^verbatim>\<open>background\<close> and
  \<^verbatim>\<open>num_frames\<close>; capture, drawing and the key press are left out. The pass reports
  what it computed.
\<close>

record session =
  background :: "accum option"
  num_frames :: nat

datatype report = Warming | NoHand | Fingers int

definition tick :: "opencv \<Rightarrow> gray \<Rightarrow> session \<Rightarrow> error + (report \<times> session)" where
  "tick cv gray s =
     (if num_frames s < 60 then
        (case calc_accum_avg gray accumulated_weight (background s) of
           Inl e \<Rightarrow> Inl e
         | Inr bg \<Rightarrow> Inr (Warming, s\<lparr>background := Some bg, num_frames := num_frames s + 1\<rparr>))
      else
        (case background s of
           None \<Rightarrow> Inl AttributeError
         | Some bg \<Rightarrow>
             (case segment cv gray bg 25 of
                Inl e \<Rightarrow> Inl e
              | Inr None \<Rightarrow> Inr (NoHand, s\<lparr>num_frames := num_frames s + 1\<rparr>)
              | Inr (Some (thresholded, hand_segment)) \<Rightarrow>
                  (case count_fingers cv thresholded hand_segment of
                     Inl e \<Rightarrow> Inl e
                   | Inr fingers \<Rightarrow> Inr (Fingers fingers, s\<lparr>num_frames := num_frames s + 1\<rparr>)))))"

text \<open>The loop over the frames of a session; an exception ends it.\<close>

fun run :: "opencv \<Rightarrow> gray list \<Rightarrow> session \<Rightarrow> error + session" where
  "run cv [] s = Inr s"
| "run cv (gray # rest) s =
     (case tick cv gray s of
        Inl e \<Rightarrow> Inl e
      | Inr (r, s') \<Rightarrow> run cv rest s')"

section \<open>A small instance of the library interface\<close>

text \<open>
  To run the model on small images, the library parameters are instantiated: the hull
  of points in convex position is the points themselves; in an image whose foreground
  pixels do not touch each other every foreground pixel is a contour of one point; a
  ring of thickness \<open>t\<close> covers the pixels whose distance to the centre differs from
  the radius by at most \<open>t div 2\<close>; and the squared distance is the exact one.
\<close>

definition isolated_pixels :: "gray \<Rightarrow> contour list" where
  "isolated_pixels img =
     concat (map (\<lambda>(y, row). concat (map (\<lambda>(x, p). if p = 0 then [] else [[(int x, int y)]])
                                          (enumerate 0 row)))
                 (enumerate 0 img))"

definition annulus_covers :: "point \<Rightarrow> int \<Rightarrow> int \<Rightarrow> point \<Rightarrow> bool" where
  "annulus_covers center radius thickness p =
     (let d2 = (fst p - fst center)\<^sup>2 + (snd p - snd center)\<^sup>2; half = thickness div 2
      in d2 \<le> (radius + half)\<^sup>2 \<and> (radius \<le> half \<or> (radius - half)\<^sup>2 \<le> d2))"

definition small_cv :: opencv where
  "small_cv = \<lparr>hull_points = (\<lambda>points. points),
               trace_contours = (\<lambda>mode method img. isolated_pixels img),
               circle_covers = annulus_covers,
               float_sq_distance = (\<lambda>c q. real_of_int ((fst c - fst q)\<^sup>2 + (snd c - snd q)\<^sup>2))\<rparr>"

text \<open>A sample input: a thin vertical contour of two points, and an image of seven
  rows of five pixels with one foreground pixel, two pixels above the middle of the
  contour.\<close>

definition sample_hand :: contour where
  "sample_hand = [(2, 0), (2, 6)]"

definition sample_mask :: gray where
  "sample_mask = [[0, 0, 0, 0, 0],
                  [0, 0, 255, 0, 0],
                  [0, 0, 0, 0, 0],
                  [0, 0, 0, 0, 0],
                  [0, 0, 0, 0, 0],
                  [0, 0, 0, 0, 0],
                  [0, 0, 0, 0, 0]]"

text \<open>The contour that \<^verbatim>\<open>cv2.findContours\<close> traces, with \<^verbatim>\<open>CHAIN_APPROX_NONE\<close>, around a
  horizontal line of \<open>k + 1\<close> pixels in row 0: out along the line and back.\<close>

definition line_contour :: "nat \<Rightarrow> contour" where
  "line_contour k = map (\<lambda>x. (int x, 0)) ([0..<Suc k] @ rev [1..<k])"

section \<open>Properties of the floating-point rounding\<close>

lemma pow2_powr: "pow2 k = 2 powr (real_of_int k)"
  by (simp add: pow2_def powr_int)

lemma pow2_pos: "0 < pow2 k"
  by (simp add: pow2_powr)

lemma pow2_add: "pow2 (a + b) = pow2 a * pow2 b"
  by (simp add: pow2_powr powr_add)

lemma pow2_less_iff: "pow2 a < pow2 b \<longleftrightarrow> a < b"
  by (simp add: pow2_powr)

lemma pow2_nonneg_int: "0 \<le> k \<Longrightarrow> pow2 k = of_int (2 ^ nat k)"
  by (simp add: pow2_def)

lemma binade_eq:
  assumes "pow2 e \<le> \<bar>x\<bar>" "\<bar>x\<bar> < pow2 (e + 1)"
  shows "binade x = e"
proof -
  have "0 < \<bar>x\<bar>" using assms(1) pow2_pos [of e] by linarith
  then show ?thesis
    unfolding binade_def using assms
    by (simp add: floor_log_eq_powr_iff pow2_powr)
qed

lemma binade_bounds:
  assumes "x \<noteq> 0"
  shows "pow2 (binade x) \<le> \<bar>x\<bar>" "\<bar>x\<bar> < pow2 (binade x + 1)"
proof -
  have "0 < \<bar>x\<bar>" using assms by simp
  from floor_log_eq_powr_iff [OF this, of 2 "binade x"]
  show "pow2 (binade x) \<le> \<bar>x\<bar>" "\<bar>x\<bar> < pow2 (binade x + 1)"
    by (simp_all add: binade_def pow2_powr)
qed

lemma round_even_of_int: "round_even (of_int z) = z"
  by (simp add: round_even_def)

lemma round_even_nonneg: "0 \<le> q \<Longrightarrow> 0 \<le> round_even q"
  by (auto simp: round_even_def Let_def)

lemma fl_at:
  assumes "pow2 e \<le> \<bar>x\<bar>" "\<bar>x\<bar> < pow2 (e + 1)" "emin \<le> e"
  shows "fl p emin x = of_int (round_even (x / pow2 (e - int p + 1))) * pow2 (e - int p + 1)"
proof -
  have "x \<noteq> 0" using assms(1) pow2_pos [of e] by auto
  moreover have "max (binade x) emin = e"
    using binade_eq [OF assms(1,2)] assms(3) by simp
  ultimately show ?thesis by (simp add: fl_def Let_def)
qed

lemma fl_nonneg:
  assumes "0 \<le> x"
  shows "0 \<le> fl p emin x"
proof (cases "x = 0")
  case True
  then show ?thesis by (simp add: fl_def)
next
  case False
  define u where "u = pow2 (max (binade x) emin - int p + 1)"
  have u: "0 < u" unfolding u_def by (rule pow2_pos)
  then have "0 \<le> x / u" using assms by simp
  then have "0 \<le> round_even (x / u)" by (rule round_even_nonneg)
  then have "0 \<le> of_int (round_even (x / u)) * u" using u by simp
  then show ?thesis using False by (simp add: fl_def Let_def u_def)
qed

lemma fl_exact:
  assumes x: "x = of_int m * pow2 k" and m: "\<bar>m\<bar> < 2 ^ p" and k: "emin - int p + 1 \<le> k"
  shows "fl p emin x = x"
proof (cases "m = 0")
  case True
  then show ?thesis by (simp add: x fl_def)
next
  case False
  then have nz: "x \<noteq> 0" using pow2_pos [of k] by (simp add: x)
  define e where "e = max (binade x) emin"
  define j where "j = k - (e - int p + 1)"
  have "e \<le> k + int p - 1"
  proof (cases "binade x \<le> emin")
    case True
    then show ?thesis using k by (simp add: e_def)
  next
    case False
    have "pow2 (binade x) \<le> \<bar>x\<bar>" by (rule binade_bounds [OF nz])
    also have "\<bar>x\<bar> = of_int \<bar>m\<bar> * pow2 k"
      using pow2_pos [of k] by (simp add: x abs_mult)
    also have "\<dots> < 2 ^ p * pow2 k"
    proof -
      have "(of_int \<bar>m\<bar> :: real) < of_int (2 ^ p)" using m by (simp only: of_int_less_iff)
      then show ?thesis using pow2_pos [of k] by simp
    qed
    also have "\<dots> = pow2 (int p + k)"
    proof -
      have "pow2 (int p) = 2 ^ p" by (simp add: pow2_def)
      then show ?thesis by (simp add: pow2_add)
    qed
    finally have "binade x < int p + k" by (simp add: pow2_less_iff)
    with False show ?thesis by (simp add: e_def)
  qed
  then have j: "0 \<le> j" by (simp add: j_def)
  have "pow2 k = pow2 j * pow2 (e - int p + 1)"
    unfolding pow2_add [symmetric] by (simp add: j_def)
  then have "x / pow2 (e - int p + 1) = of_int m * pow2 j"
    using pow2_pos [of "e - int p + 1"] by (simp add: x)
  also have "\<dots> = of_int (m * 2 ^ nat j)"
    by (simp add: pow2_nonneg_int [OF j])
  finally have q: "x / pow2 (e - int p + 1) = of_int (m * 2 ^ nat j)" .
  have "fl p emin x = of_int (round_even (x / pow2 (e - int p + 1))) * pow2 (e - int p + 1)"
    using nz by (simp add: fl_def Let_def e_def)
  also have "\<dots> = of_int (m * 2 ^ nat j) * pow2 (e - int p + 1)"
    unfolding q round_even_of_int ..
  also have "\<dots> = x"
    using q pow2_pos [of "e - int p + 1"] by (simp add: field_simps)
  finally show ?thesis .
qed

lemma fl64_09: "fl64 0.9 = 8106479329266893 / 9007199254740992"
proof -
  have "fl 53 (- 1022) (0.9::real) =
      of_int (round_even (0.9 / pow2 (- 1 - int 53 + 1))) * pow2 (- 1 - int 53 + 1)"
    by (rule fl_at) (simp_all add: pow2_def)
  also have "\<dots> = 8106479329266893 / 9007199254740992"
    by (simp add: pow2_def round_even_def Let_def)
  finally show ?thesis by (simp add: fl64_def)
qed

lemma fl64_27:
  "fl64 (8106479329266893 / 9007199254740992 * 3) = 6079859496950170 / 2251799813685248"
proof -
  have "fl 53 (- 1022) (8106479329266893 / 9007199254740992 * 3 :: real) =
      of_int (round_even (8106479329266893 / 9007199254740992 * 3 / pow2 (1 - int 53 + 1)))
        * pow2 (1 - int 53 + 1)"
    by (rule fl_at) (simp_all add: pow2_def)
  also have "\<dots> = 6079859496950170 / 2251799813685248"
    by (simp add: pow2_def round_even_def Let_def)
  finally show ?thesis by (simp add: fl64_def)
qed

lemma floor_27: "\<lfloor>fl64 (fl64 0.9 * 3)\<rfloor> = 2"
  unfolding fl64_09 fl64_27 by simp

lemma round_27: "round (fl64 (fl64 0.9 * 3)) = 3"
  unfolding fl64_09 fl64_27 by (simp add: round_def)

lemma fl32_blend: "fl32 (255 / 2 + 1 / 2 ^ 25) = 255 / 2"
proof -
  have "fl 24 (- 126) (255 / 2 + 1 / 2 ^ 25 :: real) =
      of_int (round_even ((255 / 2 + 1 / 2 ^ 25) / pow2 (6 - int 24 + 1))) * pow2 (6 - int 24 + 1)"
    by (rule fl_at) (simp_all add: pow2_def)
  also have "\<dots> = 255 / 2"
    by (simp add: pow2_def round_even_def Let_def)
  finally show ?thesis by (simp add: fl32_def)
qed

lemma fl64_zero: "fl64 0 = 0"
  by (simp add: fl64_def fl_def)

lemma round_even_error: "\<bar>of_int (round_even q) - q\<bar> \<le> 1 / 2"
proof -
  have "of_int \<lfloor>q\<rfloor> \<le> q" "q < of_int \<lfloor>q\<rfloor> + 1" by linarith+
  then show ?thesis
    by (auto simp: round_even_def Let_def)
qed

lemma round_even_near:
  assumes "\<bar>q - of_int z\<bar> < 1 / 2"
  shows "round_even q = z"
proof -
  have "\<bar>of_int (round_even q) - q\<bar> \<le> 1 / 2" by (rule round_even_error)
  with assms have "\<bar>(of_int (round_even q) :: real) - of_int z\<bar> < 1" by linarith
  then have "\<bar>round_even q - z\<bar> < 1"
    by (metis of_int_diff of_int_abs of_int_less_1_iff)
  then show ?thesis by linarith
qed

lemma fl_error:
  assumes "pow2 emin \<le> \<bar>x\<bar>"
  shows "\<bar>fl p emin x - x\<bar> \<le> \<bar>x\<bar> / 2 ^ p"
proof -
  have x0: "x \<noteq> 0" using assms pow2_pos [of emin] by auto
  define e where "e = binade x"
  have b: "pow2 e \<le> \<bar>x\<bar>" "\<bar>x\<bar> < pow2 (e + 1)"
    using binade_bounds [OF x0] by (simp_all add: e_def)
  have "pow2 emin < pow2 (e + 1)" using assms b by linarith
  then have le: "emin \<le> e" by (simp add: pow2_less_iff)
  define u where "u = pow2 (e - int p + 1)"
  have u0: "0 < u" by (simp add: u_def pow2_pos)
  have f: "fl p emin x = of_int (round_even (x / u)) * u"
    using fl_at [OF b le, of p] by (simp add: u_def)
  have "fl p emin x - x = (of_int (round_even (x / u)) - x / u) * u"
    using u0 by (simp add: f field_simps)
  then have "\<bar>fl p emin x - x\<bar> = \<bar>of_int (round_even (x / u)) - x / u\<bar> * u"
    using u0 by (simp add: abs_mult)
  also have "\<dots> \<le> 1 / 2 * u"
    using round_even_error [of "x / u"] u0 by (intro mult_right_mono) simp_all
  also have "1 / 2 * u = pow2 e / 2 ^ p"
  proof -
    have "pow2 (e - int p + 1) = pow2 e * pow2 (- int p) * pow2 1"
      using pow2_add [of "e + (- int p)" 1] pow2_add [of e "- int p"] by simp
    moreover have "pow2 (- int p) = 1 / 2 ^ p" by (simp add: pow2_def)
    moreover have "pow2 1 = 2" by (simp add: pow2_def)
    ultimately show ?thesis by (simp add: u_def)
  qed
  also have "\<dots> \<le> \<bar>x\<bar> / 2 ^ p"
    using b(1) by (simp add: divide_right_mono)
  finally show ?thesis .
qed

lemma fl64_lower:
  assumes "1 \<le> x"
  shows "x * (15 / 16) \<le> fl64 x"
proof -
  have "pow2 (- 1022) \<le> \<bar>x\<bar>" using assms by (simp add: pow2_def)
  from fl_error [OF this, of 53] have "\<bar>fl64 x - x\<bar> \<le> \<bar>x\<bar> / 2 ^ 53"
    by (simp add: fl64_def)
  moreover have "\<bar>x\<bar> / 2 ^ 53 \<le> x / 16" using assms by simp
  ultimately show ?thesis by linarith
qed

lemma quarter_circumference_two:
  "1 < fl64 (fl64 (fl64 (2 * fl64 pi) * 2) * 0.25)"
proof -
  have p: "2 \<le> pi" by (rule pi_ge_two)
  define a where "a = fl64 pi"
  have a: "15 / 8 \<le> a" using fl64_lower [of pi] p by (simp add: a_def)
  define b where "b = fl64 (2 * a)"
  have b: "7 / 2 \<le> b" using fl64_lower [of "2 * a"] a by (simp add: b_def)
  define c where "c = fl64 (b * 2)"
  have c: "13 / 2 \<le> c" using fl64_lower [of "b * 2"] b by (simp add: c_def)
  define d where "d = fl64 (c * 0.25)"
  have d: "3 / 2 \<le> d" using fl64_lower [of "c * 0.25"] c by (simp add: d_def)
  then show ?thesis by (simp add: d_def c_def b_def a_def)
qed

lemma quarter_circumference_zero:
  "fl64 (fl64 (fl64 (2 * fl64 pi) * 0) * 0.25) = 0"
  by (simp add: fl64_def fl_def)

lemma arctan_partial_sums:
  assumes "0 \<le> x" "x \<le> 1"
  shows "(\<Sum>i<2 * n. (- 1) ^ i * (1 / real (i * 2 + 1) * x ^ (i * 2 + 1))) \<le> arctan x"
    and "arctan x \<le> (\<Sum>i<2 * n + 1. (- 1) ^ i * (1 / real (i * 2 + 1) * x ^ (i * 2 + 1)))"
proof -
  define a where "a = (\<lambda>k. 1 / real (k * 2 + 1) * x ^ (k * 2 + 1))"
  have z: "a \<longlonglongrightarrow> 0"
    unfolding a_def using assms by (intro zeroseq_arctan_series) simp
  have p: "0 \<le> a k" for k using assms by (simp add: a_def)
  have m: "a (Suc k) \<le> a k" for k
  proof -
    have "x ^ (Suc k * 2 + 1) = x ^ (k * 2 + 1) * (x * x)" by (simp add: power2_eq_square)
    moreover have "x * x \<le> 1" using assms by (simp add: mult_le_one)
    moreover have "0 \<le> x ^ (k * 2 + 1)" using assms by simp
    ultimately have "x ^ (Suc k * 2 + 1) \<le> x ^ (k * 2 + 1)"
      by (metis mult.right_neutral mult_left_mono)
    moreover have "1 / real (Suc k * 2 + 1) \<le> 1 / real (k * 2 + 1)"
      by (intro divide_left_mono) simp_all
    ultimately show ?thesis
      unfolding a_def using assms by (intro mult_mono) simp_all
  qed
  have s: "arctan x = (\<Sum>k. (- 1) ^ k * a k)"
    unfolding a_def using assms by (intro arctan_series) simp
  show "(\<Sum>i<2 * n. (- 1) ^ i * (1 / real (i * 2 + 1) * x ^ (i * 2 + 1))) \<le> arctan x"
    using summable_Leibniz'(2) [OF z p m, of n] by (simp add: s a_def)
  show "arctan x \<le> (\<Sum>i<2 * n + 1. (- 1) ^ i * (1 / real (i * 2 + 1) * x ^ (i * 2 + 1)))"
    using summable_Leibniz'(4) [OF z p m, of n] by (simp add: s a_def)
qed

lemma pi_digits:
  "3.1415926535897932384 < pi" "pi < 3.1415926535897932385"
proof -
  have a1: "(\<Sum>i<2 * 8. (- 1) ^ i * (1 / real (i * 2 + 1) * (1 / 5) ^ (i * 2 + 1))) \<le> arctan (1 / 5)"
    by (rule arctan_partial_sums) simp_all
  have a2: "arctan (1 / 5) \<le> (\<Sum>i<2 * 8 + 1. (- 1) ^ i * (1 / real (i * 2 + 1) * (1 / 5) ^ (i * 2 + 1)))"
    by (rule arctan_partial_sums) simp_all
  have b1: "(\<Sum>i<2 * 2. (- 1) ^ i * (1 / real (i * 2 + 1) * (1 / 239) ^ (i * 2 + 1))) \<le> arctan (1 / 239)"
    by (rule arctan_partial_sums) simp_all
  have b2: "arctan (1 / 239) \<le> (\<Sum>i<2 * 2 + 1. (- 1) ^ i * (1 / real (i * 2 + 1) * (1 / 239) ^ (i * 2 + 1)))"
    by (rule arctan_partial_sums) simp_all
  have pi: "pi = 16 * arctan (1 / 5) - 4 * arctan (1 / 239)"
    using machin by simp
  show "3.1415926535897932384 < pi"
    using a1 b2 unfolding pi by (simp add: eval_nat_numeral)
  show "pi < 3.1415926535897932385"
    using a2 b1 unfolding pi by (simp add: eval_nat_numeral)
qed

lemma fl64_pi: "fl64 pi = 884279719003555 / 281474976710656"
proof -
  have lo: "3.1415926535897932384 < pi" and hi: "pi < 3.1415926535897932385"
    by (rule pi_digits)+
  have "fl 53 (- 1022) pi =
      of_int (round_even (pi / pow2 (1 - int 53 + 1))) * pow2 (1 - int 53 + 1)"
    using lo hi by (intro fl_at) (simp_all add: pow2_def)
  moreover have "round_even (pi / pow2 (1 - int 53 + 1)) = 7074237752028440"
    using lo hi by (intro round_even_near) (simp add: pow2_def abs_less_iff)
  ultimately show ?thesis by (simp add: fl64_def pow2_def)
qed

lemma fl64_two_pi: "fl64 (2 * fl64 pi) = 884279719003555 / 140737488355328"
proof -
  have e: "2 * (884279719003555 / 281474976710656 :: real) = 884279719003555 / 140737488355328"
    by simp
  have "fl64 (884279719003555 / 140737488355328) = 884279719003555 / 140737488355328"
    unfolding fl64_def
    by (rule fl_exact [of _ 884279719003555 "- 47"]) (simp_all add: pow2_def)
  then show ?thesis unfolding fl64_pi e .
qed

lemma pi_best_approximation:
  fixes m r :: int
  assumes "1 \<le> r" "r < 78256779"
  shows "86 / 10 ^ 10 \<le> \<bar>real_of_int r * pi - real_of_int m\<bar>"
proof -
  have lo: "3.1415926535897932384 < pi" and hi: "pi < 3.1415926535897932385"
    by (rule pi_digits)+
  define a where "a = 52746197 * pi - 165707065"
  define b where "b = 78256779 * pi - 245850922"
  have a: "a \<le> - (86 / 10 ^ 10)" using hi by (simp add: a_def)
  have b: "0 \<le> b" using lo by (simp add: b_def)
  define x where "x = m * 78256779 - r * 245850922"
  define y where "y = r * 165707065 - m * 52746197"
  have r: "r = x * 52746197 + y * 78256779" by (simp add: x_def y_def)
  have m: "m = x * 165707065 + y * 245850922" by (simp add: x_def y_def)
  have d: "real_of_int r * pi - real_of_int m = real_of_int x * a + real_of_int y * b"
    by (simp add: r m a_def b_def algebra_simps)
  have a0: "a \<le> 0" using a by simp
  have up: "real_of_int k * a \<le> a" if "1 \<le> k" for k :: int
  proof -
    have "(real_of_int k - 1) * a \<le> 0"
      using that a0 by (intro mult_nonneg_nonpos) simp_all
    then show ?thesis by (simp add: algebra_simps)
  qed
  have down: "- a \<le> real_of_int k * a" if "k \<le> - 1" for k :: int
  proof -
    have "0 \<le> (real_of_int k + 1) * a"
      using that a0 by (intro mult_nonpos_nonpos) simp_all
    then show ?thesis by (simp add: algebra_simps)
  qed
  consider "y = 0" | "1 \<le> y" | "y \<le> - 1" by linarith
  then show ?thesis
  proof cases
    case 1
    with r assms(1) have "1 \<le> x" by (cases "1 \<le> x") auto
    from up [OF this] have "real_of_int x * a \<le> a" .
    moreover have "real_of_int y * b = 0" using 1 by simp
    ultimately show ?thesis unfolding d using a by linarith
  next
    case 2
    with r assms(2) have "x * 52746197 < 0" by linarith
    then have "x \<le> - 1" by (cases "x \<le> - 1") auto
    from down [OF this] have "- a \<le> real_of_int x * a" .
    moreover have "0 \<le> real_of_int y * b" using 2 b by simp
    ultimately show ?thesis unfolding d using a by linarith
  next
    case 3
    with r assms(1) have "0 < x * 52746197" by linarith
    then have "1 \<le> x" by (cases "1 \<le> x") auto
    from up [OF this] have "real_of_int x * a \<le> a" .
    moreover have "real_of_int y * b \<le> 0" using 3 b by (simp add: mult_nonpos_nonneg)
    ultimately show ?thesis unfolding d using a by linarith
  qed
qed

lemma quarter_circumference_error:
  fixes r :: int
  assumes "1 \<le> r" "r \<le> 6300000"
  shows "\<bar>fl64 (fl64 (fl64 (2 * fl64 pi) * real_of_int r) * 0.25) - pi * real_of_int r / 2\<bar>
           \<le> 30 / 10 ^ 10"
proof -
  have lo: "3.1415926535897932384 < pi" and hi: "pi < 3.1415926535897932385"
    by (rule pi_digits)+
  define c :: real where "c = 884279719003555 / 140737488355328"
  define x where "x = c * real_of_int r"
  define f where "f = fl64 x"
  define y where "y = f / 4"
  define t where "t = real_of_int r"
  have r: "1 \<le> t" "t \<le> 6300000" using assms by (simp_all add: t_def)
  have c: "6 \<le> c" "c \<le> 63 / 10" "c - 2 * pi \<le> 3 / 10000000000000000"
    "2 * pi - c \<le> 3 / 10000000000000000"
    using lo hi by (simp_all add: c_def)
  have x: "6 \<le> x" "x \<le> 63 / 10 * t"
  proof -
    have "6 * 1 \<le> c * t" using c(1) r(1) by (intro mult_mono) simp_all
    then show "6 \<le> x" by (simp add: x_def t_def)
    show "x \<le> 63 / 10 * t"
      unfolding x_def t_def [symmetric] using c(2) r(1) by (intro mult_right_mono) simp_all
  qed
  have "pow2 (- 1022) \<le> \<bar>x\<bar>" using x(1) by (simp add: pow2_def)
  from fl_error [OF this, of 53] have ex: "\<bar>f - x\<bar> \<le> x / 9007199254740992"
    using x(1) by (simp add: f_def fl64_def)
  have f: "5 \<le> f" "f \<le> 64 / 10 * t"
    using ex x r by linarith+
  have "pow2 (- 1022) \<le> \<bar>y\<bar>" using f(1) by (simp add: y_def pow2_def)
  from fl_error [OF this, of 53] have ey: "\<bar>fl64 y - y\<bar> \<le> y / 9007199254740992"
    using f(1) by (simp add: y_def fl64_def)
  have cr: "\<bar>x / 4 - pi * t / 2\<bar> \<le> 3 / 10000000000000000 / 4 * t"
  proof -
    have e: "x / 4 - pi * t / 2 = (c - 2 * pi) * t / 4"
      by (simp add: x_def t_def algebra_simps)
    have "(c - 2 * pi) * t \<le> 3 / 10000000000000000 * t"
      using c(3) r(1) by (intro mult_right_mono) simp_all
    moreover have "(2 * pi - c) * t \<le> 3 / 10000000000000000 * t"
      using c(4) r(1) by (intro mult_right_mono) simp_all
    then have "- (3 / 10000000000000000 * t) \<le> (c - 2 * pi) * t"
      by (simp add: algebra_simps)
    ultimately show ?thesis unfolding e by linarith
  qed
  have "\<bar>fl64 y - pi * t / 2\<bar> \<le> 30 / 10000000000"
    using ey ex cr f x r unfolding y_def by linarith
  moreover have "fl64 (2 * fl64 pi) = c" by (simp add: fl64_two_pi c_def)
  ultimately show ?thesis by (simp add: y_def f_def x_def t_def)
qed

lemma quarter_circumference_decides:
  fixes r :: int and n :: nat
  assumes "0 \<le> r" "r \<le> 6300000"
  shows "real n < fl64 (fl64 (fl64 (2 * fl64 pi) * real_of_int r) * 0.25)
           \<longleftrightarrow> real n < 0.25 * (2 * pi * real_of_int r)"
proof (cases "r = 0")
  case True
  then show ?thesis by (simp add: fl64_zero)
next
  case False
  with assms have r: "1 \<le> r" "r < 78256779" "r \<le> 6300000" by simp_all
  define q where "q = fl64 (fl64 (fl64 (2 * fl64 pi) * real_of_int r) * 0.25)"
  define t where "t = real_of_int r * pi - real_of_int (2 * int n)"
  from pi_best_approximation [OF r(1,2), of "2 * int n"]
  have "86 / 10 ^ 10 \<le> \<bar>t\<bar>" by (simp add: t_def)
  then have far: "43 / 10000000000 \<le> \<bar>t / 2\<bar>" by simp
  have t: "t / 2 = pi * real_of_int r / 2 - real n" by (simp add: t_def field_simps)
  from quarter_circumference_error [OF r(1,3)]
  have near: "\<bar>q - pi * real_of_int r / 2\<bar> \<le> 30 / 10000000000" by (simp add: q_def)
  have "real n < q \<longleftrightarrow> real n < pi * real_of_int r / 2"
    using far near unfolding t by linarith
  then show ?thesis by (simp add: q_def)
qed

lemma fl64_circumference:
  "fl64 (884279719003555 / 140737488355328 * 156513558) = 983403688"
proof -
  have "fl 53 (- 1022) (884279719003555 / 140737488355328 * 156513558 :: real) =
      of_int (round_even (884279719003555 / 140737488355328 * 156513558 / pow2 (29 - int 53 + 1)))
        * pow2 (29 - int 53 + 1)"
    by (rule fl_at) (simp_all add: pow2_def)
  moreover have
    "round_even (884279719003555 / 140737488355328 * 156513558 / pow2 (29 - int 53 + 1))
       = 8249388044386304"
    by (rule round_even_near) (simp add: pow2_def abs_less_iff)
  ultimately show ?thesis by (simp add: fl64_def pow2_def)
qed

lemma fl64_quarter: "fl64 (983403688 * 0.25) = 245850922"
proof -
  have "fl 53 (- 1022) (245850922 :: real) = 245850922"
    by (rule fl_exact [of _ 245850922 0]) (simp_all add: pow2_def)
  then show ?thesis by (simp add: fl64_def)
qed

lemma quarter_circumference_large:
  "fl64 (fl64 (fl64 (2 * fl64 pi) * 156513558) * 0.25) = 245850922"
  unfolding fl64_two_pi fl64_circumference fl64_quarter ..

section \<open>Properties of the background accumulation\<close>

lemma shape_eq_lengths:
  "shape a = shape b \<Longrightarrow> length a = length b \<and> (\<forall>i<length a. length (a ! i) = length (b ! i))"
  unfolding shape_def by (metis length_map nth_map)

lemma shape_np_float32: "shape (np_float32 frame) = shape frame"
  by (simp add: shape_def np_float32_def comp_def)

lemma np_float32_nth:
  "i < length frame \<Longrightarrow> j < length (frame ! i) \<Longrightarrow> np_float32 frame ! i ! j = real (unat (frame ! i ! j))"
  by (simp add: np_float32_def)

lemma fl32_half: "fl32 (1 / 2) = 1 / 2"
  unfolding fl32_def by (rule fl_exact [of _ 1 "- 1"]) (simp_all add: pow2_def)

lemma byte_bound: "\<bar>uint (p :: 8 word)\<bar> < 16777216"
proof -
  have "uint p < 2 ^ LENGTH(8)" by (rule uint_bounded)
  then have "uint p < 256" by simp
  moreover have "0 \<le> uint p" by (rule uint_ge_0)
  ultimately show ?thesis by arith
qed

lemma byte_less: "uint (p :: 8 word) < 16777216"
  using byte_bound [of p] by simp

lemma fl32_byte: "fl32 (unsigned (p :: 8 word)) = unsigned p"
  unfolding fl32_def
  by (rule fl_exact [of _ "uint p" 0]) (simp_all add: pow2_def byte_less)

lemma fl32_half_byte: "fl32 (unsigned (p :: 8 word) / 2) = unsigned p / 2"
  unfolding fl32_def
  by (rule fl_exact [of _ "uint p" "- 1"]) (simp_all add: pow2_def byte_less)

lemma accumulateWeighted_session:
  "shape src = shape dst \<Longrightarrow>
   accumulateWeighted src dst accumulated_weight
     = Inr (map2 (map2 (\<lambda>d s. fl32 (fl32 (s / 2) + fl32 (d / 2)))) dst src)"
  by (simp add: accumulateWeighted_def Let_def accumulated_weight_def fl32_half)

lemma blend_pixel:
  "fl32 (fl32 (unsigned (p :: 8 word) * fl32 accumulated_weight)
         + fl32 (b * fl32 (1 - fl32 accumulated_weight)))
     = fl32 (fl32 (b * (1 - 0.5)) + unsigned p * 0.5)"
  by (simp add: accumulated_weight_def fl32_half fl32_half_byte add.commute)

lemma blend_same:
  "fl32 (fl32 (unsigned (p :: 8 word) / 2) + fl32 (unsigned p / 2)) = unsigned p"
  by (simp add: fl32_half_byte fl32_byte)

lemma accumulateWeighted_pixels:
  assumes "shape src = shape dst"
  shows "\<exists>r. accumulateWeighted src dst alpha = Inr r \<and> shape r = shape dst \<and>
           (\<forall>i<length dst. \<forall>j<length (dst ! i).
              r ! i ! j = fl32 (fl32 (src ! i ! j * fl32 alpha)
                                + fl32 (dst ! i ! j * fl32 (1 - fl32 alpha))))"
proof -
  let ?f = "\<lambda>d s. fl32 (fl32 (s * fl32 alpha) + fl32 (d * fl32 (1 - fl32 alpha)))"
  let ?r = "map2 (map2 ?f) dst src"
  from assms have len: "length src = length dst"
    and rows: "\<And>i. i < length dst \<Longrightarrow> length (src ! i) = length (dst ! i)"
    using shape_eq_lengths [of src dst] by auto
  have "accumulateWeighted src dst alpha = Inr ?r"
    using assms by (simp add: accumulateWeighted_def Let_def)
  moreover have "shape ?r = shape dst"
    unfolding shape_def using len rows by (auto intro!: nth_equalityI)
  moreover have "\<forall>i<length dst. \<forall>j<length (dst ! i). ?r ! i ! j = ?f (dst ! i ! j) (src ! i ! j)"
    using len rows by simp
  ultimately show ?thesis by blast
qed

text \<open>
  C6: the first call of the background update, on the unset background, returns a
  background of the frame's shape whose every pixel is the pixel of the frame at the
  same place, promoted to floating point; nothing is blended in, whatever the weight.
\<close>

theorem first_update_copies_frame:
  "\<exists>bg. calc_accum_avg F weight None = Inr bg \<and> shape bg = shape F \<and>
        (\<forall>i<length F. \<forall>j<length (F ! i). bg ! i ! j = real (unat (F ! i ! j)))"
  by (simp add: calc_accum_avg_def shape_np_float32 np_float32_nth)

theorem first_update_copies_frame_witness:
  "\<exists>bg. calc_accum_avg [[10, 20], [30, 40]] accumulated_weight None = Inr bg \<and>
        bg ! 1 ! 0 = 30"
  using first_update_copies_frame [of "[[10, 20], [30, 40]]" accumulated_weight]
  by auto

lemma blend_values:
  "calc_accum_avg [[255]] accumulated_weight (Some [[1 / 2 ^ 24]]) = Inr [[255 / 2]]"
proof -
  have a: "fl32 (255 / 2) = 255 / 2"
    unfolding fl32_def by (rule fl_exact [of _ 255 "- 1"]) (simp_all add: pow2_def)
  have b: "fl32 (1 / 33554432) = 1 / 33554432"
    unfolding fl32_def by (rule fl_exact [of _ 1 "- 25"]) (simp_all add: pow2_def)
  have c: "fl32 (4278190081 / 33554432) = 255 / 2"
    using fl32_blend by simp
  have f: "np_float32 [[255]] = [[255]]" by (simp add: np_float32_def)
  have s: "shape [[255 :: real]] = shape [[1 / 16777216 :: real]]" by (simp add: shape_def)
  show ?thesis
    by (simp add: calc_accum_avg_def f accumulateWeighted_session [OF s] a b c)
qed

text \<open>
  C7: a call of the background update on an initialised background leaves in every
  pixel the number \<open>bg * (1 - w) + frame * w\<close>, with the weight \<open>w = 0.5\<close>. As stated,
  as an equality of numbers, the claim fails: \<^verbatim>\<open>cv2.accumulateWeighted\<close> computes in
  \<^verbatim>\<open>float32\<close> and rounds. For a background pixel of \<open>1 / 2 ^ 24\<close> and a frame pixel of
  255 the update returns \<open>255 / 2\<close>, which is not \<open>1 / 2 ^ 24 * 0.5 + 255 * 0.5\<close>.
\<close>

theorem later_update_exact_counterexample:
  "calc_accum_avg [[255]] accumulated_weight (Some [[1 / 2 ^ 24]]) = Inr [[255 / 2]] \<and>
   (1 / 2 ^ 24) * (1 - 0.5) + 255 * 0.5 \<noteq> (255 / 2 :: real)"
  using blend_values by simp

text \<open>
  C7, amended: a call of the background update on an initialised background of the
  frame's shape returns a background of that shape whose every pixel is
  \<open>bg * (1 - w) + frame * w\<close> for the session's weight \<open>w = 0.5\<close>, evaluated in
  \<^verbatim>\<open>float32\<close>: the product \<open>bg * (1 - w)\<close> is rounded to single precision, the product
  \<open>frame * w\<close> is exact, and their sum is rounded to single precision.
\<close>

theorem later_update_blends:
  assumes "shape bg = shape frame"
  shows "\<exists>bg'. calc_accum_avg frame accumulated_weight (Some bg) = Inr bg' \<and>
           shape bg' = shape bg \<and>
           (\<forall>i<length bg. \<forall>j<length (bg ! i).
              bg' ! i ! j =
                fl32 (fl32 (bg ! i ! j * (1 - 0.5)) + real (unat (frame ! i ! j)) * 0.5))"
proof -
  have s: "shape (np_float32 frame) = shape bg"
    using assms by (simp add: shape_np_float32)
  from accumulateWeighted_pixels [OF s, of accumulated_weight]
  obtain r where r: "accumulateWeighted (np_float32 frame) bg accumulated_weight = Inr r"
    "shape r = shape bg"
    "\<forall>i<length bg. \<forall>j<length (bg ! i).
        r ! i ! j = fl32 (fl32 (np_float32 frame ! i ! j * fl32 accumulated_weight)
                          + fl32 (bg ! i ! j * fl32 (1 - fl32 accumulated_weight)))"
    by blast
  from assms have len: "length bg = length frame"
    and rows: "\<And>i. i < length bg \<Longrightarrow> length (bg ! i) = length (frame ! i)"
    using shape_eq_lengths [of bg frame] by auto
  have "calc_accum_avg frame accumulated_weight (Some bg) = Inr r"
    using r(1) by (simp add: calc_accum_avg_def)
  moreover have "\<forall>i<length bg. \<forall>j<length (bg ! i).
      r ! i ! j = fl32 (fl32 (bg ! i ! j * (1 - 0.5)) + real (unat (frame ! i ! j)) * 0.5)"
  proof (intro allI impI)
    fix i j assume i: "i < length bg" and j: "j < length (bg ! i)"
    then have "r ! i ! j = fl32 (fl32 (np_float32 frame ! i ! j * fl32 accumulated_weight)
                          + fl32 (bg ! i ! j * fl32 (1 - fl32 accumulated_weight)))"
      using r(3) by blast
    also have "np_float32 frame ! i ! j = real (unat (frame ! i ! j))"
      using i j len rows by (simp add: np_float32_nth)
    finally show "r ! i ! j = fl32 (fl32 (bg ! i ! j * (1 - 0.5)) + real (unat (frame ! i ! j)) * 0.5)"
      using blend_pixel [of "frame ! i ! j" "bg ! i ! j"] by simp
  qed
  ultimately show ?thesis using r(2) by blast
qed

theorem later_update_blends_witness:
  "shape [[1 / 2 ^ 24 :: real]] = shape [[255 :: 8 word]] \<and>
   (\<exists>bg'. calc_accum_avg [[255]] accumulated_weight (Some [[1 / 2 ^ 24]]) = Inr bg' \<and>
          shape bg' = shape [[1 / 2 ^ 24 :: real]] \<and>
          bg' ! 0 ! 0 = fl32 (fl32 (1 / 2 ^ 24 * (1 - 0.5)) + real (unat (255 :: 8 word)) * 0.5)) \<and>
   calc_accum_avg [[255]] accumulated_weight (Some [[1 / 2 ^ 24]]) = Inr [[255 / 2]]"
proof -
  have h: "shape [[1 / 2 ^ 24 :: real]] = shape [[255 :: 8 word]]"
    by (simp add: shape_def)
  from later_update_blends [OF h] show ?thesis using h blend_values by auto
qed

lemma accumulateWeighted_same:
  "accumulateWeighted (np_float32 F) (np_float32 F) accumulated_weight = Inr (np_float32 F)"
proof -
  have "map2 (map2 (\<lambda>d s. fl32 (fl32 (s / 2) + fl32 (d / 2)))) (np_float32 F) (np_float32 F)
          = np_float32 F"
    by (simp add: zip_same_conv_map np_float32_def comp_def fl32_half_byte fl32_byte cong: map_cong)
  then show ?thesis
    using accumulateWeighted_session [of "np_float32 F" "np_float32 F"] by simp
qed

lemma warm_up_constant: "warm_up (Suc k) F = Inr (Some (np_float32 F))"
  by (induction k) (simp_all add: calc_accum_avg_def accumulateWeighted_same)

lemma grid_distance_self: "grid_distance a a = 0"
proof -
  have "row_distance r r = 0" for r
    by (simp add: row_distance_def zip_same_conv_map comp_def) 
  then show ?thesis
    by (simp add: grid_distance_def zip_same_conv_map comp_def)
qed

text \<open>
  C8: with one frame \<open>F\<close> held constant, the background after any number \<open>K \<ge> 1\<close> of
  updates from the unset state is \<open>F\<close> itself, so its distance to \<open>F\<close> is below every
  positive epsilon from the first update on: the updates converge to the frame's
  values, and the descent towards epsilon is over after one step.
\<close>

theorem warm_up_converges:
  assumes "1 \<le> K" and "0 < eps"
  shows "\<exists>bg. warm_up K F = Inr (Some bg) \<and> bg = np_float32 F \<and>
              grid_distance bg (np_float32 F) < eps"
proof -
  from assms(1) obtain k where "K = Suc k" by (cases K) auto
  then have "warm_up K F = Inr (Some (np_float32 F))"
    by (simp only: warm_up_constant)
  then show ?thesis using assms(2) by (simp add: grid_distance_self)
qed

theorem warm_up_converges_witness:
  "(1::nat) \<le> 3 \<and> (0::real) < 1 / 1000 \<and>
   (\<exists>bg. warm_up 3 [[10, 20], [30, 40]] = Inr (Some bg) \<and> bg = [[10, 20], [30, 40]] \<and>
         grid_distance bg (np_float32 [[10, 20], [30, 40]]) < 1 / 1000)"
proof -
  have k: "(1::nat) \<le> 3" and e: "(0::real) < 1 / 1000" by simp_all
  have f: "np_float32 [[10, 20], [30, 40]] = [[10, 20], [30, 40]]"
    by (simp add: np_float32_def)
  from warm_up_converges [OF k e, of "[[10, 20], [30, 40]]"]
  show ?thesis unfolding f using k e by blast
qed

section \<open>Properties of the segmentation\<close>

lemma uint_absdiff_px: "uint (absdiff_px a b) = \<bar>uint a - uint b\<bar>"
  by (auto simp: absdiff_px_def uint_sub_if' word_le_def not_le word_less_def)

lemma max_from_first:
  "\<exists>i<Suc (length xs). max_from key best xs = (best # xs) ! i \<and>
       (\<forall>j<Suc (length xs). key ((best # xs) ! j) \<le> key ((best # xs) ! i)) \<and>
       (\<forall>j<i. key ((best # xs) ! j) < key ((best # xs) ! i))"
proof (induction xs arbitrary: best)
  case Nil
  then show ?case by simp
next
  case (Cons x xs)
  show ?case
  proof (cases "key best < key x")
    case True
    from Cons.IH [of x] obtain i where i: "i < Suc (length xs)"
      "max_from key x xs = (x # xs) ! i"
      "\<forall>j<Suc (length xs). key ((x # xs) ! j) \<le> key ((x # xs) ! i)"
      "\<forall>j<i. key ((x # xs) ! j) < key ((x # xs) ! i)"
      by blast
    from i(3) have xle: "key x \<le> key ((x # xs) ! i)" by (metis nth_Cons_0 zero_less_Suc)
    have "Suc i < Suc (length (x # xs))" using i(1) by simp
    moreover have "max_from key best (x # xs) = (best # x # xs) ! Suc i"
      using True i(2) by simp
    moreover have "\<forall>j<Suc (length (x # xs)). key ((best # x # xs) ! j) \<le> key ((best # x # xs) ! Suc i)"
    proof (intro allI impI)
      fix j assume "j < Suc (length (x # xs))"
      then show "key ((best # x # xs) ! j) \<le> key ((best # x # xs) ! Suc i)"
        using i(3) True xle by (cases j) auto
    qed
    moreover have "\<forall>j<Suc i. key ((best # x # xs) ! j) < key ((best # x # xs) ! Suc i)"
    proof (intro allI impI)
      fix j assume "j < Suc i"
      then show "key ((best # x # xs) ! j) < key ((best # x # xs) ! Suc i)"
        using i(4) True xle by (cases j) auto
    qed
    ultimately show ?thesis by blast
  next
    case False
    from Cons.IH [of best] obtain i where i: "i < Suc (length xs)"
      "max_from key best xs = (best # xs) ! i"
      "\<forall>j<Suc (length xs). key ((best # xs) ! j) \<le> key ((best # xs) ! i)"
      "\<forall>j<i. key ((best # xs) ! j) < key ((best # xs) ! i)"
      by blast
    from i(3) have ble: "key best \<le> key ((best # xs) ! i)" by (metis nth_Cons_0 zero_less_Suc)
    show ?thesis
    proof (cases i)
      case 0
      have "max_from key best (x # xs) = (best # x # xs) ! 0"
        using False i(2) 0 by simp
      moreover have "\<forall>j<Suc (length (x # xs)). key ((best # x # xs) ! j) \<le> key ((best # x # xs) ! 0)"
      proof (intro allI impI)
        fix j assume j: "j < Suc (length (x # xs))"
        show "key ((best # x # xs) ! j) \<le> key ((best # x # xs) ! 0)"
        proof (cases j)
          case 0 then show ?thesis by simp
        next
          case (Suc j')
          show ?thesis
          proof (cases j')
            case 0 with Suc False show ?thesis by simp
          next
            case (Suc j'')
            with \<open>j = Suc j'\<close> j i(3) \<open>i = 0\<close> show ?thesis
              by (auto dest: spec [of _ "Suc j''"])
          qed
        qed
      qed
      ultimately show ?thesis by (intro exI [of _ 0]) simp
    next
      case (Suc i')
      have lt: "key best < key ((best # xs) ! i)" using i(4) Suc by (metis nth_Cons_0 zero_less_Suc)
      have "Suc i < Suc (length (x # xs))" using i(1) by simp
      moreover have "max_from key best (x # xs) = (best # x # xs) ! Suc i"
        using False i(2) Suc by simp
      moreover have "\<forall>j<Suc (length (x # xs)). key ((best # x # xs) ! j) \<le> key ((best # x # xs) ! Suc i)"
      proof (intro allI impI)
        fix j assume j: "j < Suc (length (x # xs))"
        show "key ((best # x # xs) ! j) \<le> key ((best # x # xs) ! Suc i)"
        proof (cases j)
          case 0 then show ?thesis using ble Suc by simp
        next
          case (Suc j')
          show ?thesis
          proof (cases j')
            case 0 with \<open>j = Suc j'\<close> False lt \<open>i = Suc i'\<close> show ?thesis by simp
          next
            case (Suc j'')
            with \<open>j = Suc j'\<close> j i(3) \<open>i = Suc i'\<close> show ?thesis
              by (auto dest: spec [of _ "Suc j''"])
          qed
        qed
      qed
      moreover have "\<forall>j<Suc i. key ((best # x # xs) ! j) < key ((best # x # xs) ! Suc i)"
      proof (intro allI impI)
        fix j assume j: "j < Suc i"
        show "key ((best # x # xs) ! j) < key ((best # x # xs) ! Suc i)"
        proof (cases j)
          case 0 then show ?thesis using lt Suc by simp
        next
          case (Suc j')
          show ?thesis
          proof (cases j')
            case 0 with \<open>j = Suc j'\<close> False lt \<open>i = Suc i'\<close> show ?thesis by simp
          next
            case (Suc j'')
            with \<open>j = Suc j'\<close> j i(4) \<open>i = Suc i'\<close> show ?thesis
              by (auto dest: spec [of _ "Suc j''"])
          qed
        qed
      qed
      ultimately show ?thesis by blast
    qed
  qed
qed

lemma grid_eqI:
  assumes "shape a = shape b"
    and "\<And>i j. i < length a \<Longrightarrow> j < length (a ! i) \<Longrightarrow> a ! i ! j = b ! i ! j"
  shows "a = b"
proof (rule nth_equalityI)
  from assms(1) show len: "length a = length b"
    using shape_eq_lengths by blast
  fix i assume i: "i < length a"
  with assms(1) have rl: "length (a ! i) = length (b ! i)"
    using shape_eq_lengths by blast
  show "a ! i = b ! i"
    by (rule nth_equalityI) (use rl i assms(2) in auto)
qed

lemma shape_astype_uint8: "shape (astype_uint8 a) = shape a"
  by (simp add: shape_def astype_uint8_def comp_def)

lemma shape_difference_mask:
  "shape bg = shape frame \<Longrightarrow> shape (difference_mask frame bg thresh) = shape frame"
  unfolding shape_def difference_mask_def
  by (rule nth_equalityI) (auto dest: map_eq_imp_length_eq simp: list_eq_iff_nth_eq)

lemma difference_mask_nth:
  assumes "shape bg = shape frame" "i < length frame" "j < length (frame ! i)"
  shows "difference_mask frame bg thresh ! i ! j =
           (if thresh < \<bar>uint (frame ! i ! j) - uint (word_of_int (py_int (bg ! i ! j)) :: 8 word)\<bar>
            then 255 else 0)"
proof -
  from assms(1) have "length bg = length frame"
    and "\<And>i. i < length bg \<Longrightarrow> length (bg ! i) = length (frame ! i)"
    using shape_eq_lengths [of bg frame] by auto
  then show ?thesis using assms(2,3) by (simp add: difference_mask_def)
qed

lemma concat_empty_shape: "concat g = [] \<longleftrightarrow> (\<forall>n\<in>set (shape g). n = 0)"
  by (auto simp: shape_def)

lemma empty_same_shape: "shape a = shape b \<Longrightarrow> concat a = [] \<longleftrightarrow> concat b = []"
  by (simp only: concat_empty_shape)

lemma threshold_values:
  assumes "shape bg = shape frame"
  shows "map (map (\<lambda>p. if thresh < uint p then 255 else 0))
           (map2 (map2 absdiff_px) (astype_uint8 bg) frame)
           = difference_mask frame bg thresh"
proof -
  from assms have len: "length bg = length frame"
    and rows: "\<And>i. i < length bg \<Longrightarrow> length (bg ! i) = length (frame ! i)"
    using shape_eq_lengths [of bg frame] by auto
  let ?t = "map (map (\<lambda>p. if thresh < uint p then (255 :: 8 word) else 0))
              (map2 (map2 absdiff_px) (astype_uint8 bg) frame)"
  have st: "shape ?t = shape frame"
    unfolding shape_def astype_uint8_def
    by (rule nth_equalityI) (use len rows in auto)
  show "?t = difference_mask frame bg thresh"
  proof (rule grid_eqI)
    show "shape ?t = shape (difference_mask frame bg thresh)"
      using st assms by (simp add: shape_difference_mask)
  next
    fix i j assume "i < length ?t" "j < length (?t ! i)"
    then have i: "i < length frame" and j: "j < length (frame ! i)"
      using len rows by (auto simp: astype_uint8_def)
    have "?t ! i ! j = (if thresh < uint (absdiff_px (word_of_int (py_int (bg ! i ! j))) (frame ! i ! j))
                        then 255 else 0)"
      using i j len rows by (simp add: astype_uint8_def)
    also have "\<dots> = difference_mask frame bg thresh ! i ! j"
      using difference_mask_nth [OF assms i j] by (simp add: uint_absdiff_px abs_minus_commute)
    finally show "?t ! i ! j = difference_mask frame bg thresh ! i ! j" .
  qed
qed

lemma threshold_absdiff:
  assumes "shape bg = shape frame"
  shows "\<exists>diff. absdiff (astype_uint8 bg) frame = Inr diff \<and>
           threshold diff thresh 255 THRESH_BINARY
             = (if concat frame = [] then None else Some (difference_mask frame bg thresh))"
proof -
  let ?d = "map2 (map2 absdiff_px) (astype_uint8 bg) frame"
  have a: "absdiff (astype_uint8 bg) frame = Inr (py_array ?d)"
    using assms by (simp add: absdiff_def shape_astype_uint8)
  have sm: "shape (difference_mask frame bg thresh) = shape frame"
    using assms by (rule shape_difference_mask)
  from assms have len: "length bg = length frame"
    and rows: "\<And>i. i < length bg \<Longrightarrow> length (bg ! i) = length (frame ! i)"
    using shape_eq_lengths [of bg frame] by auto
  have sd: "shape ?d = shape frame"
    unfolding shape_def astype_uint8_def
    by (rule nth_equalityI) (use len rows in auto)
  have e1: "concat ?d = [] \<longleftrightarrow> concat frame = []" by (rule empty_same_shape [OF sd])
  have e2: "concat (difference_mask frame bg thresh) = [] \<longleftrightarrow> concat frame = []"
    by (rule empty_same_shape [OF sm])
  define D where "D = ?d"
  define M where "M = difference_mask frame bg thresh"
  have tv: "map (map (\<lambda>p. if thresh < uint p then 255 else 0)) D = M"
    unfolding D_def M_def by (rule threshold_values [OF assms])
  have "threshold (py_array D) thresh 255 THRESH_BINARY
          = (if concat frame = [] then None else Some M)"
  proof (cases "concat frame = []")
    case True
    then have "py_array D = None" using e1 by (simp add: py_array_def D_def)
    then show ?thesis using True by (simp add: threshold_def)
  next
    case False
    then have "py_array D = Some D" using e1 by (simp add: py_array_def D_def)
    moreover have "py_array M = Some M" using False e2 by (simp add: py_array_def M_def)
    ultimately show ?thesis using False by (simp add: threshold_def tv)
  qed
  with a show ?thesis unfolding D_def M_def by blast
qed

lemma segment_same_shape:
  assumes "shape bg = shape frame"
  shows "segment cv frame bg thresh =
           (if concat frame = [] then Inl AttributeError
            else (case findContours cv (difference_mask frame bg thresh) RETR_EXTERNAL CHAIN_APPROX_SIMPLE of
                    [] \<Rightarrow> Inr None
                  | c # cs \<Rightarrow> Inr (Some (difference_mask frame bg thresh, max_from contourArea c cs))))"
proof -
  from threshold_absdiff [OF assms, of thresh]
  obtain diff where "absdiff (astype_uint8 bg) frame = Inr diff"
    "threshold diff thresh 255 THRESH_BINARY
       = (if concat frame = [] then None else Some (difference_mask frame bg thresh))"
    by blast
  then show ?thesis
    by (simp add: segment_def Let_def py_max_def split: list.splits)
qed

text \<open>
  C2: for a frame and a background of equal shape, when \<open>segment\<close> returns a result it
  is a pair of a mask and a contour. The mask has the frame's shape and is 255 exactly
  at the pixels where the absolute difference between the frame and the background
  (cast to 8 bits, as the code does before differencing) exceeds the threshold, and 0
  at all others. The contour is one of the external contours found in that mask, no
  contour found has a greater area, and every contour found before it has a strictly
  smaller area: among the contours of maximum area it is the first.
\<close>

theorem segment_result:
  assumes "shape bg = shape frame"
    and "segment cv frame bg thresh = Inr (Some (thresholded, hand))"
  shows "shape thresholded = shape frame \<and>
         (\<forall>i<length frame. \<forall>j<length (frame ! i).
            thresholded ! i ! j =
              (if thresh < \<bar>uint (frame ! i ! j) - uint (word_of_int (py_int (bg ! i ! j)) :: 8 word)\<bar>
               then 255 else 0)) \<and>
         (\<exists>k<length (findContours cv thresholded RETR_EXTERNAL CHAIN_APPROX_SIMPLE).
            hand = findContours cv thresholded RETR_EXTERNAL CHAIN_APPROX_SIMPLE ! k \<and>
            (\<forall>j<length (findContours cv thresholded RETR_EXTERNAL CHAIN_APPROX_SIMPLE).
               contourArea (findContours cv thresholded RETR_EXTERNAL CHAIN_APPROX_SIMPLE ! j) \<le> contourArea hand) \<and>
            (\<forall>j<k. contourArea (findContours cv thresholded RETR_EXTERNAL CHAIN_APPROX_SIMPLE ! j) < contourArea hand))"
proof -
  let ?m = "difference_mask frame bg thresh"
  let ?cs = "findContours cv ?m RETR_EXTERNAL CHAIN_APPROX_SIMPLE"
  from assms(2) segment_same_shape [OF assms(1), of cv thresh]
  obtain c rest where cs: "?cs = c # rest" and m: "thresholded = ?m" and h: "hand = max_from contourArea c rest"
    by (auto split: list.splits if_splits)
  from max_from_first [of rest contourArea c]
  obtain k where k: "k < Suc (length rest)" "max_from contourArea c rest = (c # rest) ! k"
    "\<forall>j<Suc (length rest). contourArea ((c # rest) ! j) \<le> contourArea ((c # rest) ! k)"
    "\<forall>j<k. contourArea ((c # rest) ! j) < contourArea ((c # rest) ! k)"
    by blast
  have "shape thresholded = shape frame"
    using m assms(1) by (simp add: shape_difference_mask)
  moreover have "\<forall>i<length frame. \<forall>j<length (frame ! i).
      thresholded ! i ! j =
        (if thresh < \<bar>uint (frame ! i ! j) - uint (word_of_int (py_int (bg ! i ! j)) :: 8 word)\<bar>
         then 255 else 0)"
    using m difference_mask_nth [OF assms(1)] by simp
  moreover have "\<exists>k<length ?cs. hand = ?cs ! k \<and>
      (\<forall>j<length ?cs. contourArea (?cs ! j) \<le> contourArea hand) \<and>
      (\<forall>j<k. contourArea (?cs ! j) < contourArea hand)"
    unfolding cs h using k by (intro exI [of _ k]) simp
  ultimately show ?thesis unfolding m by blast
qed

theorem segment_result_witness:
  "shape [[0, 0, 0, 0 :: real]] = shape [[0, 100, 0, 100 :: 8 word]] \<and>
   segment small_cv [[0, 100, 0, 100]] [[0, 0, 0, 0]] 25 = Inr (Some ([[0, 255, 0, 255]], [(1, 0)])) \<and>
   findContours small_cv [[0, 255, 0, 255]] RETR_EXTERNAL CHAIN_APPROX_SIMPLE = [[(1, 0)], [(3, 0)]] \<and>
   contourArea [(1, 0)] = contourArea [(3, 0)] \<and>
   shape [[0, 255, 0, 255 :: 8 word]] = shape [[0, 100, 0, 100 :: 8 word]]"
proof -
  have h: "shape [[0, 0, 0, 0 :: real]] = shape [[0, 100, 0, 100 :: 8 word]]"
    by (simp add: shape_def)
  have fc: "findContours small_cv [[0, 255, 0, 255]] RETR_EXTERNAL CHAIN_APPROX_SIMPLE = [[(1, 0)], [(3, 0)]]"
    by (simp add: findContours_def small_cv_def isolated_pixels_def)
  have s: "segment small_cv [[0, 100, 0, 100]] [[0, 0, 0, 0]] 25 = Inr (Some ([[0, 255, 0, 255]], [(1, 0)]))"
    by (simp add: segment_def absdiff_def shape_def astype_uint8_def py_int_def absdiff_px_def
        threshold_def py_array_def findContours_def small_cv_def isolated_pixels_def py_max_def
        contourArea_def)
  from segment_result [OF h s] show ?thesis
    using h s fc by (simp add: contourArea_def)
qed

text \<open>
  C5: \<open>segment\<close> returns the absence value exactly when no external contour is found
  in the binarised difference, and raises nothing. As stated for every frame and
  background the claim fails on images without pixels: for a frame and a background
  of one row and no column, \<^verbatim>\<open>cv2.absdiff\<close> and \<^verbatim>\<open>cv2.threshold\<close> hand back \<^verbatim>\<open>None\<close>, and
  \<^verbatim>\<open>thresholded.copy()\<close> raises \<^verbatim>\<open>AttributeError\<close>.
\<close>

theorem segment_empty_image_counterexample:
  "shape [[] :: real list] = shape [[] :: 8 word list] \<and>
   segment small_cv [[]] [[]] 25 = Inl AttributeError"
  by (simp add: segment_def absdiff_def shape_def astype_uint8_def py_array_def threshold_def)

text \<open>
  C5, amended: for every frame of at least one pixel and every background of the
  frame's shape, \<open>segment\<close> raises no error, and it returns the absence value if and
  only if no external contour is found in the binarised difference mask.
\<close>

theorem segment_absence:
  assumes "shape bg = shape frame" and "concat frame \<noteq> []"
  shows "(segment cv frame bg thresh = Inr None \<longleftrightarrow>
            findContours cv (difference_mask frame bg thresh) RETR_EXTERNAL CHAIN_APPROX_SIMPLE = []) \<and>
         (\<exists>r. segment cv frame bg thresh = Inr r)"
  using segment_same_shape [OF assms(1), of cv thresh] assms(2) by (auto split: list.splits)

theorem segment_absence_witness:
  "shape [[0, 0, 0, 0 :: real]] = shape [[0, 10, 0, 10 :: 8 word]] \<and>
   concat [[0, 10, 0, 10 :: 8 word]] \<noteq> [] \<and>
   segment small_cv [[0, 10, 0, 10]] [[0, 0, 0, 0]] 25 = Inr None \<and>
   findContours small_cv (difference_mask [[0, 10, 0, 10]] [[0, 0, 0, 0]] 25)
     RETR_EXTERNAL CHAIN_APPROX_SIMPLE = []"
proof -
  have h: "shape [[0, 0, 0, 0 :: real]] = shape [[0, 10, 0, 10 :: 8 word]]"
    by (simp add: shape_def)
  have n: "concat [[0, 10, 0, 10 :: 8 word]] \<noteq> []" by simp
  have fc: "findContours small_cv (difference_mask [[0, 10, 0, 10]] [[0, 0, 0, 0]] 25)
     RETR_EXTERNAL CHAIN_APPROX_SIMPLE = []"
    by (simp add: findContours_def small_cv_def isolated_pixels_def difference_mask_def py_int_def)
  from segment_absence [OF h n, of small_cv 25] show ?thesis
    using h n fc by simp
qed

section \<open>Properties of the finger counting\<close>

lemma arg_scan_min:
  "bi < i \<Longrightarrow> arg_scan (<) bi bv i vs = k \<Longrightarrow>
   (k = bi \<and> (\<forall>v\<in>set vs. bv \<le> v)) \<or>
   (i \<le> k \<and> k < i + length vs \<and> vs ! (k - i) < bv \<and>
    (\<forall>v\<in>set vs. vs ! (k - i) \<le> v))"
proof (induction vs arbitrary: bi bv i)
  case Nil
  then show ?case by simp
next
  case (Cons v vs)
  show ?case
  proof (cases "v < bv")
    case True
    with Cons.prems have k: "arg_scan (<) i v (Suc i) vs = k" by simp
    have "i < Suc i" by simp
    from Cons.IH [OF this k]
    consider (here) "k = i" "\<forall>x\<in>set vs. v \<le> x"
      | (later) "Suc i \<le> k" "k < Suc i + length vs" "vs ! (k - Suc i) < v"
          "\<forall>x\<in>set vs. vs ! (k - Suc i) \<le> x"
      by blast
    then show ?thesis
    proof cases
      case here
      then show ?thesis using True by simp
    next
      case later
      from later(1) have d: "k - i = Suc (k - Suc i)" by simp
      have "i \<le> k" "k < i + length (v # vs)" using later(1,2) by simp_all
      moreover have "(v # vs) ! (k - i) < bv"
        unfolding d using later(3) True by simp
      moreover have "\<forall>x\<in>set (v # vs). (v # vs) ! (k - i) \<le> x"
        unfolding d using later(3,4) by simp
      ultimately show ?thesis by blast
    qed
  next
    case False
    with Cons.prems have k: "arg_scan (<) bi bv (Suc i) vs = k" by simp
    from Cons.prems have "bi < Suc i" by simp
    from Cons.IH [OF this k]
    consider (kept) "k = bi" "\<forall>x\<in>set vs. bv \<le> x"
      | (later) "Suc i \<le> k" "k < Suc i + length vs" "vs ! (k - Suc i) < bv"
          "\<forall>x\<in>set vs. vs ! (k - Suc i) \<le> x"
      by blast
    then show ?thesis
    proof cases
      case kept
      then show ?thesis using False by simp
    next
      case later
      from later(1) have d: "k - i = Suc (k - Suc i)" by simp
      have "i \<le> k" "k < i + length (v # vs)" using later(1,2) by simp_all
      moreover have "(v # vs) ! (k - i) < bv"
        unfolding d using later(3) by simp
      moreover have "\<forall>x\<in>set (v # vs). (v # vs) ! (k - i) \<le> x"
        unfolding d using later(3,4) False by simp
      ultimately show ?thesis by blast
    qed
  qed
qed

lemma arg_scan_max:
  "bi < i \<Longrightarrow> arg_scan (>) bi bv i vs = k \<Longrightarrow>
   (k = bi \<and> (\<forall>v\<in>set vs. v \<le> bv)) \<or>
   (i \<le> k \<and> k < i + length vs \<and> bv < vs ! (k - i) \<and>
    (\<forall>v\<in>set vs. v \<le> vs ! (k - i)))"
proof (induction vs arbitrary: bi bv i)
  case Nil
  then show ?case by simp
next
  case (Cons v vs)
  show ?case
  proof (cases "bv < v")
    case True
    with Cons.prems have k: "arg_scan (>) i v (Suc i) vs = k" by simp
    have "i < Suc i" by simp
    from Cons.IH [OF this k]
    consider (here) "k = i" "\<forall>x\<in>set vs. x \<le> v"
      | (later) "Suc i \<le> k" "k < Suc i + length vs" "v < vs ! (k - Suc i)"
          "\<forall>x\<in>set vs. x \<le> vs ! (k - Suc i)"
      by blast
    then show ?thesis
    proof cases
      case here
      then show ?thesis using True by simp
    next
      case later
      from later(1) have d: "k - i = Suc (k - Suc i)" by simp
      have "i \<le> k" "k < i + length (v # vs)" using later(1,2) by simp_all
      moreover have "bv < (v # vs) ! (k - i)"
        unfolding d using later(3) True by simp
      moreover have "\<forall>x\<in>set (v # vs). x \<le> (v # vs) ! (k - i)"
        unfolding d using later(3,4) by simp
      ultimately show ?thesis by blast
    qed
  next
    case False
    with Cons.prems have k: "arg_scan (>) bi bv (Suc i) vs = k" by simp
    from Cons.prems have "bi < Suc i" by simp
    from Cons.IH [OF this k]
    consider (kept) "k = bi" "\<forall>x\<in>set vs. x \<le> bv"
      | (later) "Suc i \<le> k" "k < Suc i + length vs" "bv < vs ! (k - Suc i)"
          "\<forall>x\<in>set vs. x \<le> vs ! (k - Suc i)"
      by blast
    then show ?thesis
    proof cases
      case kept
      then show ?thesis using False by simp
    next
      case later
      from later(1) have d: "k - i = Suc (k - Suc i)" by simp
      have "i \<le> k" "k < i + length (v # vs)" using later(1,2) by simp_all
      moreover have "bv < (v # vs) ! (k - i)"
        unfolding d using later(3) by simp
      moreover have "\<forall>x\<in>set (v # vs). x \<le> (v # vs) ! (k - i)"
        unfolding d using later(3,4) False by simp
      ultimately show ?thesis by blast
    qed
  qed
qed

lemma argmin_least:
  assumes "vs \<noteq> []"
  shows "\<exists>k<length vs. argmin vs = Inr k \<and> (\<forall>v\<in>set vs. vs ! k \<le> v)"
proof -
  from assms obtain v rest where vs: "vs = v # rest" by (cases vs) auto
  define k where "k = arg_scan (<) 0 v (Suc 0) rest"
  have am: "argmin vs = Inr k" by (simp add: vs argmin_def k_def)
  have "(0::nat) < Suc 0" by simp
  from arg_scan_min [OF this k_def [symmetric]]
  consider (first) "k = 0" "\<forall>x\<in>set rest. v \<le> x"
    | (later) "Suc 0 \<le> k" "k < Suc 0 + length rest" "rest ! (k - Suc 0) < v"
        "\<forall>x\<in>set rest. rest ! (k - Suc 0) \<le> x"
    by auto
  then show ?thesis
  proof cases
    case first
    then show ?thesis using am by (simp add: vs)
  next
    case later
    from later(1) obtain k' where k': "k = Suc k'" by (cases k) auto
    then show ?thesis using am later by (simp add: vs)
  qed
qed

lemma argmax_greatest:
  assumes "vs \<noteq> []"
  shows "\<exists>k<length vs. argmax vs = Inr k \<and> (\<forall>v\<in>set vs. v \<le> vs ! k)"
proof -
  from assms obtain v rest where vs: "vs = v # rest" by (cases vs) auto
  define k where "k = arg_scan (>) 0 v (Suc 0) rest"
  have am: "argmax vs = Inr k" by (simp add: vs argmax_def k_def)
  have "(0::nat) < Suc 0" by simp
  from arg_scan_max [OF this k_def [symmetric]]
  consider (first) "k = 0" "\<forall>x\<in>set rest. x \<le> v"
    | (later) "Suc 0 \<le> k" "k < Suc 0 + length rest" "v < rest ! (k - Suc 0)"
        "\<forall>x\<in>set rest. x \<le> rest ! (k - Suc 0)"
    by auto
  then show ?thesis
  proof cases
    case first
    then show ?thesis using am by (simp add: vs)
  next
    case later
    from later(1) obtain k' where k': "k = Suc k'" by (cases k) auto
    then show ?thesis using am later by (simp add: vs)
  qed
qed

lemma extreme_points_extreme:
  assumes "conv_hull \<noteq> []"
  shows "\<exists>tp bottom left right.
           extreme_points conv_hull = Inr (tp, bottom, left, right) \<and>
           tp \<in> set conv_hull \<and> bottom \<in> set conv_hull \<and> left \<in> set conv_hull \<and> right \<in> set conv_hull \<and>
           (\<forall>q\<in>set conv_hull. snd tp \<le> snd q \<and> snd q \<le> snd bottom \<and>
                          fst left \<le> fst q \<and> fst q \<le> fst right)"
proof -
  from assms have ne: "map snd conv_hull \<noteq> []" "map fst conv_hull \<noteq> []" by simp_all
  from argmin_least [OF ne(1)] obtain t where t: "t < length conv_hull" "argmin (map snd conv_hull) = Inr t"
    "\<forall>q\<in>set conv_hull. snd (conv_hull ! t) \<le> snd q" by auto
  from argmax_greatest [OF ne(1)] obtain b where b: "b < length conv_hull" "argmax (map snd conv_hull) = Inr b"
    "\<forall>q\<in>set conv_hull. snd q \<le> snd (conv_hull ! b)" by auto
  from argmin_least [OF ne(2)] obtain l where l: "l < length conv_hull" "argmin (map fst conv_hull) = Inr l"
    "\<forall>q\<in>set conv_hull. fst (conv_hull ! l) \<le> fst q" by auto
  from argmax_greatest [OF ne(2)] obtain r where r: "r < length conv_hull" "argmax (map fst conv_hull) = Inr r"
    "\<forall>q\<in>set conv_hull. fst q \<le> fst (conv_hull ! r)" by auto
  have "extreme_points conv_hull = Inr (conv_hull ! t, conv_hull ! b, conv_hull ! l, conv_hull ! r)"
    by (simp add: extreme_points_def t(2) b(2) l(2) r(2))
  moreover have "conv_hull ! t \<in> set conv_hull" "conv_hull ! b \<in> set conv_hull"
    "conv_hull ! l \<in> set conv_hull" "conv_hull ! r \<in> set conv_hull"
    using t(1) b(1) l(1) r(1) by simp_all
  moreover have "\<forall>q\<in>set conv_hull. snd (conv_hull ! t) \<le> snd q \<and> snd q \<le> snd (conv_hull ! b) \<and>
      fst (conv_hull ! l) \<le> fst q \<and> fst q \<le> fst (conv_hull ! r)"
    using t(3) b(3) l(3) r(3) by simp
  ultimately show ?thesis by blast
qed

lemma extreme_points_empty: "extreme_points [] = Inl ValueError"
  by (simp add: extreme_points_def argmin_def)

lemma fold_max_ge: "(d::real) \<le> fold max ds d"
  by (induction ds arbitrary: d) (auto intro: order_trans [OF max.cobounded2])

lemma wrap32_id: "- (2 ^ 31) \<le> v \<Longrightarrow> v < 2 ^ 31 \<Longrightarrow> wrap32 v = v"
  by (simp add: wrap32_def)

lemma hand_center_exact:
  assumes "exact_coordinate (fst left)" "exact_coordinate (fst right)"
    "exact_coordinate (snd tp)" "exact_coordinate (snd bottom)"
  shows "hand_center tp bottom left right
           = ((fst left + fst right) div 2, (snd tp + snd bottom) div 2)"
    and "exact_coordinate ((fst left + fst right) div 2)"
    and "exact_coordinate ((snd tp + snd bottom) div 2)"
  using assms by (auto simp: hand_center_def exact_coordinate_def wrap32_id)

lemma float_distance_nonneg: "0 \<le> fl64 (sqrt (max 0 s))"
  unfolding fl64_def by (rule fl_nonneg) simp

lemma hand_geometry_returns:
  assumes "conv_hull \<noteq> []"
  shows "\<exists>cX cY radius. hand_geometry cv conv_hull = Inr (cX, cY, radius) \<and> 0 \<le> radius"
proof -
  from extreme_points_extreme [OF assms]
  obtain tp bottom left right where e: "extreme_points conv_hull = Inr (tp, bottom, left, right)"
    by blast
  obtain cX cY where c: "hand_center tp bottom left right = (cX, cY)"
    by (cases "hand_center tp bottom left right") auto
  define d where "d = (\<lambda>q. fl64 (sqrt (max 0 (sq_distance cv (cX, cY) q))))"
  define F where "F = fold max [d right, d tp, d bottom] (d left)"
  have "0 \<le> d left" unfolding d_def by (rule float_distance_nonneg)
  also have "\<dots> \<le> F" unfolding F_def by (rule fold_max_ge)
  finally have "0 \<le> F" .
  moreover have "0 \<le> fl64 0.9" unfolding fl64_def by (rule fl_nonneg) simp
  ultimately have "0 \<le> fl64 0.9 * F" by (intro mult_nonneg_nonneg)
  then have "0 \<le> fl64 (fl64 0.9 * F)" unfolding fl64_def by (rule fl_nonneg)
  then have nn: "0 \<le> py_int (fl64 (fl64 0.9 * F))" by (simp add: py_int_def)
  have "np_max (euclidean_distances cv (cX, cY) [left, right, tp, bottom]) = Inr F"
    unfolding F_def d_def by (simp add: euclidean_distances_def np_max_def)
  then have "hand_geometry cv conv_hull = Inr (cX, cY, py_int (fl64 (fl64 0.9 * F)))"
    unfolding hand_geometry_def e by (simp add: c Let_def)
  with nn show ?thesis by blast
qed

lemma hand_geometry_extremes:
  assumes e: "extreme_points conv_hull = Inr (tp, bottom, left, right)"
    and x: "exact_coordinate (fst left)" "exact_coordinate (fst right)"
      "exact_coordinate (snd tp)" "exact_coordinate (snd bottom)"
      "exact_coordinate (snd left)" "exact_coordinate (snd right)"
      "exact_coordinate (fst tp)" "exact_coordinate (fst bottom)"
  shows "hand_geometry cv conv_hull =
           Inr ((fst left + fst right) div 2, (snd tp + snd bottom) div 2,
                \<lfloor>fl64 (fl64 0.9 *
                   Max ((\<lambda>q. fl64 (euclidean_distance
                                       ((fst left + fst right) div 2, (snd tp + snd bottom) div 2) q))
                          ` {tp, bottom, left, right}))\<rfloor>)"
proof -
  let ?c = "((fst left + fst right) div 2, (snd tp + snd bottom) div 2)"
  let ?d = "\<lambda>q. fl64 (euclidean_distance ?c q)"
  define D where "D = Max (?d ` {tp, bottom, left, right})"
  define F where "F = fold max [?d right, ?d tp, ?d bottom] (?d left)"
  note hc = hand_center_exact [OF x(1-4)]
  have "?d ` {tp, bottom, left, right} = set (?d left # [?d right, ?d tp, ?d bottom])"
    by auto
  then have m: "F = D"
    unfolding F_def D_def by (simp only: Max.set_eq_fold)
  have fd: "fl64 (sqrt (max 0 (sq_distance cv ?c q))) = ?d q"
    if "exact_coordinate (fst q)" "exact_coordinate (snd q)" for q
    using that hc(2,3) by (simp add: sq_distance_def euclidean_distance_def max_def)
  have "0 \<le> ?d left"
    unfolding fd [OF x(1) x(5), symmetric] by (rule float_distance_nonneg)
  also have "\<dots> \<le> F" unfolding F_def by (rule fold_max_ge)
  finally have "0 \<le> F" .
  moreover have "0 \<le> fl64 0.9" unfolding fl64_def by (rule fl_nonneg) simp
  ultimately have "0 \<le> fl64 0.9 * F" by (intro mult_nonneg_nonneg)
  then have "0 \<le> fl64 (fl64 0.9 * F)" unfolding fl64_def by (rule fl_nonneg)
  then have p: "py_int (fl64 (fl64 0.9 * F)) = \<lfloor>fl64 (fl64 0.9 * F)\<rfloor>"
    by (simp add: py_int_def)
  have "euclidean_distances cv ?c [left, right, tp, bottom] = [?d left, ?d right, ?d tp, ?d bottom]"
    unfolding euclidean_distances_def
    using fd [OF x(1) x(5)] fd [OF x(2) x(6)] fd [OF x(7) x(3)] fd [OF x(8) x(4)] by simp
  then have "np_max (euclidean_distances cv ?c [left, right, tp, bottom]) = Inr F"
    unfolding F_def by (simp add: np_max_def)
  then have "hand_geometry cv conv_hull =
      Inr ((fst left + fst right) div 2, (snd tp + snd bottom) div 2, py_int (fl64 (fl64 0.9 * F)))"
    unfolding hand_geometry_def e by (simp add: hc(1) Let_def)
  then have "hand_geometry cv conv_hull =
      Inr ((fst left + fst right) div 2, (snd tp + snd bottom) div 2, \<lfloor>fl64 (fl64 0.9 * F)\<rfloor>)"
    by (simp only: p)
  then show ?thesis unfolding m D_def .
qed

lemma sqrt_nine: "sqrt 9 = 3"
  by (rule real_sqrt_unique) simp_all

lemma fl64_three: "fl64 3 = 3"
  unfolding fl64_def by (rule fl_exact [of _ 3 0]) (simp_all add: pow2_def)

lemma exact_small: "\<bar>v\<bar> \<le> 16 \<Longrightarrow> exact_coordinate v"
  by (simp add: exact_coordinate_def)

lemma diamond_geometry:
  "hand_geometry cv [(3, 0), (6, 3), (3, 6), (0, 3)] = Inr (3, 3, 2)"
proof -
  have e: "extreme_points [(3, 0), (6, 3), (3, 6), (0, 3)] = Inr ((3, 0), (3, 6), (0, 3), (6, 3))"
    by (simp add: extreme_points_def argmin_def argmax_def)
  have d: "Max ((\<lambda>q. fl64 (euclidean_distance
                  ((fst (0::int, 3::int) + fst (6::int, 3::int)) div 2,
                   (snd (3::int, 0::int) + snd (3::int, 6::int)) div 2) q))
             ` {(3, 0), (3, 6), (0, 3), (6, 3)}) = 3"
    by (simp add: euclidean_distance_def sqrt_nine fl64_three)
  from hand_geometry_extremes [OF e, of cv] show ?thesis
    unfolding d floor_27 by (simp add: exact_small)
qed

text \<open>
  C3: the radius of the sampling band is \<open>round (0.9 * D)\<close>, for the greatest distance
  \<open>D\<close> from the hand centre to the four extreme points of the hull. As stated the
  claim fails: the code computes \<^verbatim>\<open>int(0.9 * max_distance)\<close>, which drops the fraction.
  For the hull with the vertices (3, 0), (6, 3), (3, 6), (0, 3) the centre is (3, 3)
  and \<open>D = 3\<close>; the radius is 2, while \<open>0.9 * 3\<close> rounds to 3, over the reals and in
  \<^verbatim>\<open>float64\<close> alike.
\<close>

theorem radius_rounding_counterexample:
  "hand_geometry small_cv [(3, 0), (6, 3), (3, 6), (0, 3)] = Inr (3, 3, 2) \<and>
   extreme_points [(3, 0), (6, 3), (3, 6), (0, 3)] = Inr ((3, 0), (3, 6), (0, 3), (6, 3)) \<and>
   Max (euclidean_distance (3, 3) ` {(3, 0), (3, 6), (0, 3), (6, 3)}) = 3 \<and>
   round (0.9 * (3 :: real)) = 3 \<and>
   round (fl64 (fl64 0.9 * 3)) = 3"
proof -
  have e: "extreme_points [(3, 0), (6, 3), (3, 6), (0, 3)] = Inr ((3, 0), (3, 6), (0, 3), (6, 3))"
    by (simp add: extreme_points_def argmin_def argmax_def)
  have d: "Max (euclidean_distance (3, 3) ` {(3, 0), (3, 6), (0, 3), (6, 3)}) = 3"
    by (simp add: euclidean_distance_def sqrt_nine)
  have r: "round (0.9 * (3::real)) = 3" by (simp add: round_def)
  from diamond_geometry [of small_cv] e d r round_27 show ?thesis by blast
qed

text \<open>
  C3, amended: for every non-empty hull whose coordinates are at most \<open>2 ^ 24\<close> in
  absolute value, the radius of the sampling band is \<open>0.9 * D\<close> with the fraction
  dropped, the product being the \<^verbatim>\<open>float64\<close> one, where \<open>D\<close> is the greatest of the
  Euclidean distances, each rounded to \<^verbatim>\<open>float64\<close>, from the hand centre \<open>(cX, cY)\<close> to
  the four extreme points of the hull: a topmost, a bottommost, a leftmost and a
  rightmost point, the centre being the midpoint of their extents.
\<close>

theorem radius_from_extremes:
  assumes "conv_hull \<noteq> []"
    and "\<forall>q\<in>set conv_hull. \<bar>fst q\<bar> \<le> 2 ^ 24 \<and> \<bar>snd q\<bar> \<le> 2 ^ 24"
  shows "\<exists>cX cY radius tp bottom left right.
           hand_geometry cv conv_hull = Inr (cX, cY, radius) \<and>
           tp \<in> set conv_hull \<and> bottom \<in> set conv_hull \<and>
           left \<in> set conv_hull \<and> right \<in> set conv_hull \<and>
           (\<forall>q\<in>set conv_hull. snd tp \<le> snd q \<and> snd q \<le> snd bottom \<and>
                                fst left \<le> fst q \<and> fst q \<le> fst right) \<and>
           cX = (fst left + fst right) div 2 \<and> cY = (snd tp + snd bottom) div 2 \<and>
           radius = \<lfloor>fl64 (fl64 0.9 *
                      Max ((\<lambda>q. fl64 (euclidean_distance (cX, cY) q)) ` {tp, bottom, left, right}))\<rfloor>"
proof -
  from extreme_points_extreme [OF assms(1)]
  obtain tp bottom left right where e: "extreme_points conv_hull = Inr (tp, bottom, left, right)"
    and m: "tp \<in> set conv_hull" "bottom \<in> set conv_hull" "left \<in> set conv_hull" "right \<in> set conv_hull"
    and x: "\<forall>q\<in>set conv_hull. snd tp \<le> snd q \<and> snd q \<le> snd bottom \<and>
                                fst left \<le> fst q \<and> fst q \<le> fst right"
    by blast
  have ex: "exact_coordinate (fst q) \<and> exact_coordinate (snd q)" if "q \<in> set conv_hull" for q
    using assms(2) that by (simp add: exact_coordinate_def)
  from hand_geometry_extremes [OF e, of cv] ex [OF m(1)] ex [OF m(2)] ex [OF m(3)] ex [OF m(4)]
  have "hand_geometry cv conv_hull =
           Inr ((fst left + fst right) div 2, (snd tp + snd bottom) div 2,
                \<lfloor>fl64 (fl64 0.9 *
                   Max ((\<lambda>q. fl64 (euclidean_distance
                                       ((fst left + fst right) div 2, (snd tp + snd bottom) div 2) q))
                          ` {tp, bottom, left, right}))\<rfloor>)"
    by blast
  with m x show ?thesis by blast
qed

theorem radius_from_extremes_witness:
  "([(3, 0), (6, 3), (3, 6), (0, 3)] :: contour) \<noteq> [] \<and>
   list_all (\<lambda>q. \<bar>fst q\<bar> \<le> 2 ^ 24 \<and> \<bar>snd q\<bar> \<le> 2 ^ 24) ([(3, 0), (6, 3), (3, 6), (0, 3)] :: contour) \<and>
   hand_geometry small_cv [(3, 0), (6, 3), (3, 6), (0, 3)] = Inr (3, 3, 2) \<and>
   (\<exists>cX cY radius tp bottom left right.
      hand_geometry small_cv [(3, 0), (6, 3), (3, 6), (0, 3)] = Inr (cX, cY, radius) \<and>
      tp \<in> set [(3, 0), (6, 3), (3, 6), (0, 3)] \<and>
      radius = \<lfloor>fl64 (fl64 0.9 *
                 Max ((\<lambda>q. fl64 (euclidean_distance (cX, cY) q)) ` {tp, bottom, left, right}))\<rfloor>)"
proof -
  have h: "([(3, 0), (6, 3), (3, 6), (0, 3)] :: contour) \<noteq> []" by simp
  have b: "\<forall>q\<in>set ([(3, 0), (6, 3), (3, 6), (0, 3)] :: contour). \<bar>fst q\<bar> \<le> 2 ^ 24 \<and> \<bar>snd q\<bar> \<le> 2 ^ 24"
    by simp
  have l: "list_all (\<lambda>q. \<bar>fst q\<bar> \<le> 2 ^ 24 \<and> \<bar>snd q\<bar> \<le> 2 ^ 24) ([(3, 0), (6, 3), (3, 6), (0, 3)] :: contour)"
    by simp
  from radius_from_extremes [OF h b, of small_cv] show ?thesis
    using h l diamond_geometry [of small_cv] by blast
qed

lemma fl64_above:
  assumes "0 \<le> x"
  shows "fl64 x \<le> x + (x + 1) / 2 ^ 53"
proof (cases "x = 0")
  case True
  then show ?thesis by (simp add: fl64_zero)
next
  case False
  define e where "e = max (binade x) (- 1022)"
  define u where "u = pow2 (e - int 53 + 1)"
  have u0: "0 < u" by (simp add: u_def pow2_pos)
  have f: "fl64 x = of_int (round_even (x / u)) * u"
    using False by (simp add: fl64_def fl_def Let_def e_def u_def)
  have "of_int (round_even (x / u)) \<le> x / u + 1 / 2"
    using round_even_error [of "x / u"] by linarith
  then have "of_int (round_even (x / u)) * u \<le> (x / u + 1 / 2) * u"
    using u0 by (intro mult_right_mono) simp_all
  also have "\<dots> = x + u / 2" using u0 by (simp add: field_simps)
  finally have a: "fl64 x \<le> x + u / 2" by (simp add: f)
  have s: "pow2 (k - int 53 + 1) = pow2 k * (2 / 2 ^ 53)" for k
  proof -
    have "pow2 (k - int 53 + 1) = pow2 k * pow2 (- 52)"
      using pow2_add [of k "- 52"] by simp
    then show ?thesis by (simp add: pow2_def)
  qed
  have "u / 2 \<le> (x + 1) / 2 ^ 53"
  proof (cases "binade x \<le> - 1022")
    case True
    then have "e = - 1022" by (simp add: e_def)
    then have "u = pow2 (- 1022) * (2 / 2 ^ 53)" unfolding u_def by (simp only: s)
    moreover have "pow2 (- 1022) \<le> 1" by (simp add: pow2_def)
    ultimately have "u \<le> 1 * (2 / 2 ^ 53)" by (simp only: mult_right_mono zero_le_divide_iff) simp
    with assms show ?thesis by (simp add: field_simps)
  next
    case False
    then have e: "e = binade x" by (simp add: e_def)
    have "pow2 e \<le> \<bar>x\<bar>" unfolding e by (rule binade_bounds) fact
    then have "pow2 e * (2 / 2 ^ 53) \<le> x * (2 / 2 ^ 53)"
      using assms by (intro mult_right_mono) simp_all
    then have "u \<le> x * (2 / 2 ^ 53)" unfolding u_def by (simp only: s)
    then show ?thesis by (simp add: field_simps)
  qed
  with a show ?thesis by linarith
qed

lemma distance_bound:
  fixes B :: int
  assumes "\<bar>fst c\<bar> \<le> B" "\<bar>snd c\<bar> \<le> B" "\<bar>fst q\<bar> \<le> B" "\<bar>snd q\<bar> \<le> B"
  shows "euclidean_distance c q \<le> real_of_int (3 * B)"
proof -
  have B: "0 \<le> B" using assms(1) by linarith
  have dx: "\<bar>fst c - fst q\<bar> \<le> 2 * B" and dy: "\<bar>snd c - snd q\<bar> \<le> 2 * B"
    using assms by linarith+
  have sq: "v\<^sup>2 \<le> (2 * B)\<^sup>2" if "\<bar>v\<bar> \<le> 2 * B" for v :: int
  proof (rule power2_le_iff_abs_le [THEN iffD2])
    show "0 \<le> 2 * B" using B by simp
    show "\<bar>v\<bar> \<le> 2 * B" by (rule that)
  qed
  have "(2 * B)\<^sup>2 + (2 * B)\<^sup>2 \<le> (3 * B)\<^sup>2"
    by (simp add: power2_eq_square)
  with sq [OF dx] sq [OF dy]
  have "(fst c - fst q)\<^sup>2 + (snd c - snd q)\<^sup>2 \<le> (3 * B)\<^sup>2" by linarith
  then have "real_of_int ((fst c - fst q)\<^sup>2 + (snd c - snd q)\<^sup>2) \<le> (real_of_int (3 * B))\<^sup>2"
    by (metis of_int_le_iff of_int_power)
  then show ?thesis
    unfolding euclidean_distance_def using B by (intro real_le_lsqrt) simp_all
qed

lemma hand_geometry_radius:
  fixes B :: int
  assumes "conv_hull \<noteq> []" and "B \<le> 2 ^ 24"
    and "\<forall>q\<in>set conv_hull. \<bar>fst q\<bar> \<le> B \<and> \<bar>snd q\<bar> \<le> B"
  shows "\<exists>cX cY radius. hand_geometry cv conv_hull = Inr (cX, cY, radius) \<and>
           0 \<le> radius \<and> radius \<le> 3 * B + 2"
proof -
  from extreme_points_extreme [OF assms(1)]
  obtain tp bottom left right where e: "extreme_points conv_hull = Inr (tp, bottom, left, right)"
    and m: "tp \<in> set conv_hull" "bottom \<in> set conv_hull" "left \<in> set conv_hull" "right \<in> set conv_hull"
    by blast
  have b: "\<bar>fst q\<bar> \<le> B \<and> \<bar>snd q\<bar> \<le> B" if "q \<in> set conv_hull" for q
    using assms(3) that by blast
  have x: "exact_coordinate (fst q) \<and> exact_coordinate (snd q)" if "q \<in> set conv_hull" for q
    using b [OF that] assms(2) by (simp add: exact_coordinate_def)
  have B: "0 \<le> B" using b [OF m(1)] by linarith
  define c where "c = ((fst left + fst right) div 2, (snd tp + snd bottom) div 2)"
  define M where "M = Max ((\<lambda>q. fl64 (euclidean_distance c q)) ` {tp, bottom, left, right})"
  from hand_geometry_extremes [OF e, of cv] x [OF m(1)] x [OF m(2)] x [OF m(3)] x [OF m(4)]
  have g: "hand_geometry cv conv_hull = Inr (fst c, snd c, \<lfloor>fl64 (fl64 0.9 * M)\<rfloor>)"
    unfolding M_def c_def by simp
  from hand_geometry_returns [OF assms(1), of cv] g
  have nn: "0 \<le> \<lfloor>fl64 (fl64 0.9 * M)\<rfloor>" by auto
  have cc: "\<bar>fst c\<bar> \<le> B" "\<bar>snd c\<bar> \<le> B"
    using b [OF m(1)] b [OF m(2)] b [OF m(3)] b [OF m(4)] by (simp_all add: c_def) linarith+
  have up: "fl64 v \<le> v + 1" if "0 \<le> v" "v \<le> real_of_int (3 * B) + 1" for v
  proof -
    have "v + 1 \<le> 2 ^ 53" using that(2) assms(2) by simp
    then have "(v + 1) / 2 ^ 53 \<le> 1" by simp
    with fl64_above [OF that(1)] show ?thesis by linarith
  qed
  have d: "fl64 (euclidean_distance c q) \<le> real_of_int (3 * B) + 1" if "q \<in> set conv_hull" for q
  proof -
    have "0 \<le> euclidean_distance c q" by (simp add: euclidean_distance_def)
    moreover have "euclidean_distance c q \<le> real_of_int (3 * B)"
      using distance_bound [OF cc] b [OF that] by blast
    ultimately show ?thesis using up [of "euclidean_distance c q"] by linarith
  qed
  have d0: "0 \<le> fl64 (euclidean_distance c q)" for q
    unfolding fl64_def by (rule fl_nonneg) (simp add: euclidean_distance_def)
  have M1: "M \<le> real_of_int (3 * B) + 1"
    unfolding M_def using d [OF m(1)] d [OF m(2)] d [OF m(3)] d [OF m(4)] by simp
  have M0: "0 \<le> M"
    unfolding M_def using d0 [of tp] by (simp add: Max_ge_iff)
  have k: "fl64 0.9 \<le> 1" "0 \<le> fl64 0.9" unfolding fl64_09 by simp_all
  have "fl64 0.9 * M \<le> 1 * M" using k(1) M0 by (rule mult_right_mono)
  moreover have "0 \<le> fl64 0.9 * M" using k(2) M0 by (rule mult_nonneg_nonneg)
  ultimately have p: "fl64 0.9 * M \<le> real_of_int (3 * B) + 1" "0 \<le> fl64 0.9 * M"
    using M1 by simp_all
  from up [OF p(2) p(1)] p(1) have "fl64 (fl64 0.9 * M) \<le> real_of_int (3 * B + 2)" by simp
  then have "\<lfloor>fl64 (fl64 0.9 * M)\<rfloor> \<le> 3 * B + 2" by (simp add: floor_le_iff)
  with g nn show ?thesis by blast
qed

lemma hand_geometry_bounded:
  assumes "conv_hull \<noteq> []"
    and "\<forall>q\<in>set conv_hull. exact_coordinate (fst q) \<and> exact_coordinate (snd q)"
  shows "\<exists>cX cY radius. hand_geometry cv conv_hull = Inr (cX, cY, radius) \<and>
           0 \<le> radius \<and> radius < 2 ^ 31"
proof -
  have "\<forall>q\<in>set conv_hull. \<bar>fst q\<bar> \<le> 2 ^ 24 \<and> \<bar>snd q\<bar> \<le> 2 ^ 24"
    using assms(2) by (simp add: exact_coordinate_def)
  from hand_geometry_radius [OF assms(1) _ this, of cv] show ?thesis by fastforce
qed

lemma shape_np_zeros: "shape (np_zeros like) = shape like"
  by (simp add: shape_def np_zeros_def comp_def)

lemma circle_shape:
  assumes "0 \<le> radius" "radius < 2 ^ 31" "thickness \<le> 32767"
  shows "\<exists>ring. circle cv img center radius color thickness = Inr ring \<and> shape ring = shape img"
proof -
  have "map (\<lambda>x. length (case x of (y, row) \<Rightarrow> map (f y) (enumerate 0 row))) (enumerate 0 img)
          = map length img" for f :: "nat \<Rightarrow> nat \<times> 8 word \<Rightarrow> 8 word"
    by (rule nth_equalityI) (simp_all add: nth_enumerate_eq)
  then show ?thesis
    using assms unfolding circle_def shape_def by (simp add: comp_def)
qed

lemma bitwise_and_same:
  assumes "shape msk = shape src"
  shows "\<exists>dst. bitwise_and src src msk = Inr (py_array dst) \<and> shape dst = shape src"
proof -
  let ?dst = "map2 (\<lambda>(r1, r2) rm. map2 (\<lambda>(a, b) m. if m = 0 then 0 else a AND b) (zip r1 r2) rm)
                   (zip src src) msk"
  from assms have len: "length msk = length src"
    and rows: "\<And>i. i < length msk \<Longrightarrow> length (msk ! i) = length (src ! i)"
    using shape_eq_lengths [of msk src] by auto
  have "bitwise_and src src msk = Inr (py_array ?dst)"
    using assms by (simp add: bitwise_and_def)
  moreover have "shape ?dst = shape src"
    unfolding shape_def by (rule nth_equalityI) (use len rows in auto)
  ultimately show ?thesis by blast
qed

lemma circular_roi_returns:
  assumes "0 \<le> radius" and "radius < 2 ^ 31" and "concat thresholded \<noteq> []"
  shows "\<exists>roi. circular_roi cv thresholded center radius = Inr (Some roi)"
proof -
  from circle_shape [OF assms(1,2), of 10 cv "np_zeros thresholded" center 255]
  obtain ring where r: "circle cv (np_zeros thresholded) center radius 255 10 = Inr ring"
    and s: "shape ring = shape thresholded"
    by (auto simp: shape_np_zeros)
  from bitwise_and_same [OF s] obtain dst
    where d: "bitwise_and thresholded thresholded ring = Inr (py_array dst)"
      and sd: "shape dst = shape thresholded"
    by blast
  have "concat dst \<noteq> []" using empty_same_shape [OF sd] assms(3) by simp
  then have "py_array dst = Some dst" by (simp add: py_array_def)
  with r d show ?thesis by (simp add: circular_roi_def)
qed

lemma circular_roi_empty:
  assumes "0 \<le> radius" and "radius < 2 ^ 31" and "concat thresholded = []"
  shows "circular_roi cv thresholded center radius = Inr None"
proof -
  from circle_shape [OF assms(1,2), of 10 cv "np_zeros thresholded" center 255]
  obtain ring where r: "circle cv (np_zeros thresholded) center radius 255 10 = Inr ring"
    and s: "shape ring = shape thresholded"
    by (auto simp: shape_np_zeros)
  from bitwise_and_same [OF s] obtain dst
    where d: "bitwise_and thresholded thresholded ring = Inr (py_array dst)"
      and sd: "shape dst = shape thresholded"
    by blast
  have "concat dst = []" using empty_same_shape [OF sd] assms(3) by simp
  then have "py_array dst = None" by (simp add: py_array_def)
  with r d show ?thesis by (simp add: circular_roi_def)
qed

lemma count_step_is_finger:
  "count_step cY radius contour count = (if is_finger cY radius contour then count + 1 else count)"
  by (simp add: count_step_def is_finger_def Let_def algebra_simps split: prod.splits)

lemma fold_count_step:
  "fold (count_step cY radius) contours n = n + int (length (filter (is_finger cY radius) contours))"
  by (induction contours arbitrary: n) (simp_all add: count_step_is_finger)

lemma count_loop_filter:
  "count_loop cY radius contours = int (length (filter (is_finger cY radius) contours))"
  by (simp add: count_loop_def fold_count_step)

lemma is_finger_spec:
  assumes "0 \<le> r" "r \<le> 6300000"
  shows "is_finger cY r contour = spec_is_finger cY r contour"
  using quarter_circumference_decides [OF assms, of "length contour"]
  by (simp add: is_finger_def spec_is_finger_def split: prod.splits)

lemma count_fingers_spec:
  assumes "concat thresholded \<noteq> []"
    and "convexHull cv hand = Some conv_hull" and "conv_hull \<noteq> []"
    and "\<forall>q\<in>set conv_hull. \<bar>fst q\<bar> \<le> 2 ^ 21 \<and> \<bar>snd q\<bar> \<le> 2 ^ 21"
  shows "\<exists>cX cY radius roi.
           hand_geometry cv conv_hull = Inr (cX, cY, radius) \<and>
           circular_roi cv thresholded (cX, cY) radius = Inr (Some roi) \<and>
           (\<forall>contour count.
              count_step cY radius contour count =
                (if spec_is_finger cY radius contour then count + 1 else count)) \<and>
           count_fingers cv thresholded hand =
             Inr (int (length (filter (spec_is_finger cY radius)
                                 (findContours cv roi RETR_EXTERNAL CHAIN_APPROX_NONE))))"
proof -
  from hand_geometry_radius [OF assms(3) _ assms(4), of cv]
  obtain cX cY radius where g: "hand_geometry cv conv_hull = Inr (cX, cY, radius)"
    and r: "0 \<le> radius" "radius \<le> 6300000"
    by fastforce
  have "radius < 2 ^ 31" using r(2) by simp
  from circular_roi_returns [OF r(1) this assms(1), of cv "(cX, cY)"]
  obtain roi where roi: "circular_roi cv thresholded (cX, cY) radius = Inr (Some roi)" by blast
  have s: "is_finger cY radius = spec_is_finger cY radius"
    using is_finger_spec [OF r] by (intro ext)
  have "count_fingers cv thresholded hand =
          Inr (count_loop cY radius (findContours cv roi RETR_EXTERNAL CHAIN_APPROX_NONE))"
    by (simp add: count_fingers_def assms(2) g roi)
  then have "count_fingers cv thresholded hand =
      Inr (int (length (filter (spec_is_finger cY radius)
                          (findContours cv roi RETR_EXTERNAL CHAIN_APPROX_NONE))))"
    by (simp add: count_loop_filter s)
  moreover have "count_step cY radius contour count =
      (if spec_is_finger cY radius contour then count + 1 else count)" for contour count
    by (simp add: count_step_is_finger s)
  ultimately show ?thesis using g roi by blast
qed

lemma count_fingers_hull:
  assumes "concat thresholded \<noteq> []"
    and "convexHull cv hand = Some conv_hull" and "conv_hull \<noteq> []"
    and "\<forall>q\<in>set conv_hull. exact_coordinate (fst q) \<and> exact_coordinate (snd q)"
  shows "\<exists>cX cY radius roi.
           hand_geometry cv conv_hull = Inr (cX, cY, radius) \<and>
           circular_roi cv thresholded (cX, cY) radius = Inr (Some roi) \<and>
           count_fingers cv thresholded hand =
             Inr (count_loop cY radius (findContours cv roi RETR_EXTERNAL CHAIN_APPROX_NONE))"
proof -
  from hand_geometry_bounded [OF assms(3,4), of cv]
  obtain cX cY radius where g: "hand_geometry cv conv_hull = Inr (cX, cY, radius)"
    and nn: "0 \<le> radius" "radius < 2 ^ 31"
    by blast
  from circular_roi_returns [OF nn assms(1), of cv "(cX, cY)"]
  obtain roi where roi: "circular_roi cv thresholded (cX, cY) radius = Inr (Some roi)" by blast
  have "count_fingers cv thresholded hand =
          Inr (count_loop cY radius (findContours cv roi RETR_EXTERNAL CHAIN_APPROX_NONE))"
    by (simp add: count_fingers_def assms(2) g roi)
  with g roi show ?thesis by blast
qed

lemma count_fingers_empty_image:
  assumes "concat thresholded = []"
    and "convexHull cv hand = Some conv_hull" and "conv_hull \<noteq> []"
    and "\<forall>q\<in>set conv_hull. exact_coordinate (fst q) \<and> exact_coordinate (snd q)"
  shows "count_fingers cv thresholded hand = Inl AttributeError"
proof -
  from hand_geometry_bounded [OF assms(3,4), of cv]
  obtain cX cY radius where g: "hand_geometry cv conv_hull = Inr (cX, cY, radius)"
    and nn: "0 \<le> radius" "radius < 2 ^ 31"
    by blast
  from circular_roi_empty [OF nn assms(1), of cv "(cX, cY)"]
  show ?thesis by (simp add: count_fingers_def assms(2) g)
qed

lemma sample_geometry: "hand_geometry cv sample_hand = Inr (2, 3, 2)"
proof -
  have e: "extreme_points sample_hand = Inr ((2, 0), (2, 6), (2, 0), (2, 0))"
    by (simp add: sample_hand_def extreme_points_def argmin_def argmax_def)
  have d: "Max ((\<lambda>q. fl64 (euclidean_distance
                  ((fst (2::int, 0::int) + fst (2::int, 0::int)) div 2,
                   (snd (2::int, 0::int) + snd (2::int, 6::int)) div 2) q))
             ` {(2, 0), (2, 6), (2, 0), (2, 0)}) = 3"
    by (simp add: euclidean_distance_def sqrt_nine fl64_three)
  from hand_geometry_extremes [OF e, of cv] show ?thesis
    unfolding d floor_27 by (simp add: exact_small)
qed

lemma sample_roi: "circular_roi small_cv sample_mask (2, 3) 2 = Inr (Some sample_mask)"
  by (simp add: circular_roi_def circle_def np_zeros_def sample_mask_def small_cv_def
      annulus_covers_def bitwise_and_def shape_def py_array_def power2_eq_square)

lemma sample_contours:
  "findContours small_cv sample_mask RETR_EXTERNAL CHAIN_APPROX_NONE = [[(2, 1)]]"
  by (simp add: findContours_def small_cv_def isolated_pixels_def sample_mask_def)

lemma sample_is_finger: "is_finger 3 2 [(2, 1)]"
proof -
  have "1 < fl64 (fl64 (fl64 (2 * fl64 pi) * 2) / 4)"
    using quarter_circumference_two by simp
  then show ?thesis by (simp add: is_finger_def boundingRect_def)
qed

lemma sample_count: "count_fingers small_cv sample_mask sample_hand = Inr 1"
proof -
  have h: "convexHull small_cv sample_hand = Some sample_hand"
    by (simp add: convexHull_def small_cv_def sample_hand_def)
  show ?thesis
    by (simp add: count_fingers_def h sample_geometry sample_roi sample_contours
        count_loop_filter sample_is_finger)
qed

lemma sample_area: "contourArea sample_hand = 0"
  by (simp add: contourArea_def sample_hand_def)

lemma sample_mask_pixels: "concat sample_mask \<noteq> []"
  by (simp add: sample_mask_def)

lemma fold_constant:
  fixes a :: int
  assumes "\<forall>v\<in>set vs. v = a"
  shows "fold min vs a = a" and "fold max vs a = a"
  using assms by (induction vs) simp_all

lemma boundingRect_row:
  assumes "c \<noteq> []" and "\<forall>p\<in>set c. snd p = 0"
  shows "\<exists>x w. boundingRect c = (x, 0, w, 1)"
proof (cases c)
  case Nil
  with assms(1) show ?thesis by simp
next
  case (Cons p ps)
  with assms(2) have p: "snd p = 0" and ps: "\<forall>v\<in>set (map snd ps). v = 0" by auto
  from fold_constant [OF ps] show ?thesis
    by (simp add: boundingRect_def Cons p Let_def)
qed

lemma line_contour_row:
  "line_contour k \<noteq> []" "\<forall>p\<in>set (line_contour k). snd p = 0"
  "0 < k \<Longrightarrow> length (line_contour k) = 2 * k"
  by (auto simp: line_contour_def)

text \<open>
  C1: for every mask and contour, a contour extracted from the ring-intersected mask,
  with bounding rectangle \<open>(x, y, w, h)\<close> and \<open>n\<close> points, is counted if and only if
  \<open>cY + 0.25 * cY > y + h\<close> and \<open>n < 0.25 * 2\<pi> * r\<close>, and \<open>count_fingers\<close> returns the
  number of extracted contours that pass both tests. As stated the claim fails twice.
  On a mask without pixels no count is returned: \<^verbatim>\<open>cv2.bitwise_and\<close> hands back
  \<^verbatim>\<open>None\<close> and \<^verbatim>\<open>circular_roi.copy()\<close> raises \<^verbatim>\<open>AttributeError\<close>. And the code compares \<open>n\<close>
  with the \<^verbatim>\<open>float64\<close> value of \<^verbatim>\<open>2 * np.pi * radius * 0.25\<close>: for the radius 156513558
  that value is 245850922, so the contour of 245850922 points around a line of
  122925462 pixels is not counted, although 245850922 is less than
  \<open>0.25 * 2\<pi> * 156513558\<close> and the contour passes the other test.
\<close>

theorem finger_test_counterexample:
  "count_fingers small_cv [[]] sample_hand = Inl AttributeError \<and>
   length (line_contour 122925461) = 245850922 \<and>
   spec_is_finger 1 156513558 (line_contour 122925461) \<and>
   count_step 1 156513558 (line_contour 122925461) 0 = 0"
proof -
  have h: "convexHull small_cv sample_hand = Some sample_hand"
    by (simp add: convexHull_def small_cv_def sample_hand_def)
  have z: "count_fingers small_cv [[]] sample_hand = Inl AttributeError"
    by (rule count_fingers_empty_image [OF _ h]) (simp_all add: sample_hand_def exact_coordinate_def)
  have n: "length (line_contour 122925461) = 245850922"
    using line_contour_row(3) [of 122925461] by simp
  obtain x w where b: "boundingRect (line_contour 122925461) = (x, 0, w, 1)"
    using boundingRect_row [OF line_contour_row(1,2)] by blast
  have "3.1415926535897932384 < pi" by (rule pi_digits)
  then have "spec_is_finger 1 156513558 (line_contour 122925461)"
    by (simp add: spec_is_finger_def b n)
  moreover have "fl64 (fl64 (fl64 (2 * fl64 pi) * 156513558) / 4) = 245850922"
    using quarter_circumference_large by simp
  then have "count_step 1 156513558 (line_contour 122925461) 0 = 0"
    by (simp add: count_step_def b n Let_def)
  ultimately show ?thesis using n z by simp
qed

text \<open>
  C1, amended: for every mask of at least one pixel and every contour with a non-empty
  hull whose coordinates are at most \<open>2 ^ 21\<close> in absolute value, \<open>count_fingers\<close>
  returns a count. Each contour extracted from the ring-intersected mask, with bounding
  rectangle \<open>(x, y, w, h)\<close> and \<open>n\<close> points, is counted (the running count grows by one)
  if and only if both \<open>cY + 0.25 * cY > y + h\<close> and \<open>n < 0.25 * 2\<pi> * r\<close> hold, over the
  real numbers, and the returned count is exactly the number of extracted contours that
  pass both tests. (For these hulls the radius is below 6300000, where the \<^verbatim>\<open>float64\<close>
  product of the code decides the second test as the real product does.)
\<close>

theorem finger_count:
  assumes "concat thresholded \<noteq> []"
    and "convexHull cv hand = Some conv_hull" and "conv_hull \<noteq> []"
    and "\<forall>q\<in>set conv_hull. \<bar>fst q\<bar> \<le> 2 ^ 21 \<and> \<bar>snd q\<bar> \<le> 2 ^ 21"
  shows "\<exists>cX cY radius roi.
           hand_geometry cv conv_hull = Inr (cX, cY, radius) \<and>
           circular_roi cv thresholded (cX, cY) radius = Inr (Some roi) \<and>
           (\<forall>contour count.
              count_step cY radius contour count =
                (if spec_is_finger cY radius contour then count + 1 else count)) \<and>
           count_fingers cv thresholded hand =
             Inr (int (length (filter (spec_is_finger cY radius)
                                 (findContours cv roi RETR_EXTERNAL CHAIN_APPROX_NONE))))"
  by (rule count_fingers_spec [OF assms])

theorem finger_count_witness:
  "concat sample_mask \<noteq> [] \<and>
   convexHull small_cv sample_hand = Some sample_hand \<and> sample_hand \<noteq> [] \<and>
   (\<exists>cX cY radius roi.
      hand_geometry small_cv sample_hand = Inr (cX, cY, radius) \<and>
      circular_roi small_cv sample_mask (cX, cY) radius = Inr (Some roi) \<and>
      count_fingers small_cv sample_mask sample_hand =
        Inr (int (length (filter (spec_is_finger cY radius)
                            (findContours small_cv roi RETR_EXTERNAL CHAIN_APPROX_NONE))))) \<and>
   count_fingers small_cv sample_mask sample_hand = Inr 1"
proof -
  have h: "convexHull small_cv sample_hand = Some sample_hand"
    by (simp add: convexHull_def small_cv_def sample_hand_def)
  have n: "sample_hand \<noteq> []" by (simp add: sample_hand_def)
  have b: "\<forall>q\<in>set sample_hand. \<bar>fst q\<bar> \<le> 2 ^ 21 \<and> \<bar>snd q\<bar> \<le> 2 ^ 21"
    by (simp add: sample_hand_def)
  from finger_count [OF sample_mask_pixels h n b] show ?thesis
    using h n sample_count sample_mask_pixels by blast
qed

lemma single_point_count:
  assumes "concat thresholded \<noteq> []"
    and "exact_coordinate (fst p)" and "exact_coordinate (snd p)"
  shows "convexHull cv [p] = Some [p] \<and>
         extreme_points [p] = Inr (p, p, p, p) \<and>
         hand_geometry cv [p] = Inr (fst p, snd p, 0) \<and>
         count_fingers cv thresholded [p] = Inr 0"
proof -
  have e: "extreme_points [p] = Inr (p, p, p, p)"
    by (simp add: extreme_points_def argmin_def argmax_def)
  have c: "((fst p + fst p) div 2, (snd p + snd p) div 2) = p" by simp
  have d: "Max ((\<lambda>q. fl64 (euclidean_distance p q)) ` {p, p, p, p}) = 0"
    by (simp add: euclidean_distance_def fl64_zero)
  have "hand_geometry cv [p] =
      Inr ((fst p + fst p) div 2, (snd p + snd p) div 2,
           \<lfloor>fl64 (fl64 0.9 * Max ((\<lambda>q. fl64 (euclidean_distance
              ((fst p + fst p) div 2, (snd p + snd p) div 2) q)) ` {p, p, p, p}))\<rfloor>)"
    by (rule hand_geometry_extremes [OF e assms(2) assms(2) assms(3) assms(3) assms(3) assms(3)
          assms(2) assms(2)])
  then have g: "hand_geometry cv [p] = Inr (fst p, snd p, 0)"
    unfolding c d by (simp add: fl64_zero)
  have h: "convexHull cv [p] = Some [p]" by (simp add: convexHull_def)
  have b: "\<forall>q\<in>set [p]. exact_coordinate (fst q) \<and> exact_coordinate (snd q)"
    using assms(2,3) by simp
  from count_fingers_hull [OF assms(1) h _ b] g
  obtain roi where "count_fingers cv thresholded [p] =
      Inr (count_loop (snd p) 0 (findContours cv roi RETR_EXTERNAL CHAIN_APPROX_NONE))"
    by auto
  moreover have "\<not> is_finger cY 0 k" for cY k
    by (simp add: is_finger_def fl64_zero split: prod.splits)
  ultimately have "count_fingers cv thresholded [p] = Inr 0"
    by (simp add: count_loop_filter)
  with e g h show ?thesis by simp
qed

lemma hand_geometry_steps:
  assumes "extreme_points conv_hull = Inr (tp, bottom, left, right)"
    and "hand_center tp bottom left right = (cX, cY)"
    and "euclidean_distances cv (cX, cY) [left, right, tp, bottom] = distance"
    and "np_max distance = Inr max_distance"
    and "py_int (fl64 (fl64 0.9 * max_distance)) = radius"
  shows "hand_geometry cv conv_hull = Inr (cX, cY, radius)"
  using assms by (simp add: hand_geometry_def Let_def)

lemma wrapped_geometry:
  "hand_geometry small_cv [(2 ^ 30, 0)] = Inr (- (2 ^ 30), 0, 1932735283)"
proof -
  have e: "extreme_points [(2 ^ 30, 0)] = Inr ((2 ^ 30, 0), (2 ^ 30, 0), (2 ^ 30, 0), (2 ^ 30, 0))"
    by (simp add: extreme_points_def argmin_def argmax_def)
  have c: "hand_center (2 ^ 30, 0) (2 ^ 30, 0) (2 ^ 30, 0) (2 ^ 30, 0) = (- (2 ^ 30), 0)"
    by (simp add: hand_center_def wrap32_def)
  have s: "sq_distance small_cv (- (2 ^ 30), 0) (2 ^ 30, 0) = 2 ^ 62"
    by (simp add: sq_distance_def exact_coordinate_def small_cv_def)
  have r: "sqrt (2 ^ 62) = 2 ^ 31"
    by (rule real_sqrt_unique) simp_all
  have f: "fl64 (2 ^ 31) = 2 ^ 31"
    unfolding fl64_def by (rule fl_exact [of _ 1 31]) (simp_all add: pow2_def)
  have f': "fl64 2147483648 = 2147483648"
    using f by simp
  have d: "euclidean_distances small_cv (- (2 ^ 30), 0)
             [(2 ^ 30, 0), (2 ^ 30, 0), (2 ^ 30, 0), (2 ^ 30, 0)] = [2 ^ 31, 2 ^ 31, 2 ^ 31, 2 ^ 31]"
  proof -
    have "fl64 (sqrt (max 0 (sq_distance small_cv (- (2 ^ 30), 0) (2 ^ 30, 0)))) = 2 ^ 31"
      unfolding s by (simp only: max.absorb2 zero_le_numeral zero_le_power r f)
    then show ?thesis unfolding euclidean_distances_def by simp
  qed
  have p: "fl64 (fl64 0.9 * 2 ^ 31) = 8106479329266893 / 4194304"
  proof -
    have "fl 53 (- 1022) (8106479329266893 / 4194304 :: real) = 8106479329266893 / 4194304"
      by (rule fl_exact [of _ 8106479329266893 "- 22"]) (simp_all add: pow2_def)
    then show ?thesis unfolding fl64_09 by (simp add: fl64_def)
  qed
  have i: "py_int (fl64 (fl64 0.9 * 2 ^ 31)) = 1932735283"
    unfolding p by (simp add: py_int_def)
  have m: "np_max [2 ^ 31, 2 ^ 31, 2 ^ 31, 2 ^ 31 :: real] = Inr (2 ^ 31)"
    by (simp add: np_max_def)
  show ?thesis by (rule hand_geometry_steps [OF e c d m i])
qed

text \<open>
  C10: for every mask and every contour of a single point, the hand centre is that
  point, the radius is 0, and \<open>count_fingers\<close> returns 0 without an error. As stated the
  claim fails twice. On a mask without pixels \<^verbatim>\<open>circular_roi.copy()\<close> raises
  \<^verbatim>\<open>AttributeError\<close>. And the centre is not always the point: the sum of the two equal
  32-bit coordinates wraps, so that for the point \<open>(2 ^ 30, 0)\<close> the centre is
  \<open>(- (2 ^ 30), 0)\<close>, at the distance \<open>2 ^ 31\<close> from the point, and the radius is
  1932735283. (Every term of the squared distance is a power of two here, so that the
  library computes it exactly.)
\<close>

theorem single_point_faults_counterexample:
  "count_fingers small_cv [[]] [(1, 0)] = Inl AttributeError \<and>
   hand_geometry small_cv [(2 ^ 30, 0)] = Inr (- (2 ^ 30), 0, 1932735283)"
proof -
  have h: "convexHull small_cv [(1, 0)] = Some [(1, 0)]" by (simp add: convexHull_def)
  have "count_fingers small_cv [[]] [(1, 0)] = Inl AttributeError"
    by (rule count_fingers_empty_image [OF _ h]) (simp_all add: exact_coordinate_def)
  then show ?thesis using wrapped_geometry by simp
qed

text \<open>
  C10, amended: for every mask of at least one pixel and every contour of a single
  point whose coordinates are at most \<open>2 ^ 24\<close> in absolute value, the four extreme
  points of the hull coincide, the hand centre is that point and the radius is 0; no
  contour passes the point-count test \<open>n < 0.25 * 2\<pi> * 0\<close>, and \<open>count_fingers\<close> returns
  0 without an error.
\<close>

theorem single_point_contour:
  assumes "concat thresholded \<noteq> []"
    and "\<bar>fst p\<bar> \<le> 2 ^ 24" and "\<bar>snd p\<bar> \<le> 2 ^ 24"
  shows "convexHull cv [p] = Some [p] \<and>
         extreme_points [p] = Inr (p, p, p, p) \<and>
         hand_geometry cv [p] = Inr (fst p, snd p, 0) \<and>
         (\<forall>cY contour. \<not> spec_is_finger cY 0 contour) \<and>
         count_fingers cv thresholded [p] = Inr 0"
proof -
  have "\<not> spec_is_finger cY 0 c" for cY c
    by (simp add: spec_is_finger_def split: prod.splits)
  moreover have "exact_coordinate (fst p)" "exact_coordinate (snd p)"
    using assms(2,3) by (simp_all add: exact_coordinate_def)
  ultimately show ?thesis
    using single_point_count [OF assms(1), of p cv] by blast
qed

theorem single_point_contour_witness:
  "concat [[0, 255, 0 :: 8 word]] \<noteq> [] \<and>
   \<bar>fst (1 :: int, 0 :: int)\<bar> \<le> 2 ^ 24 \<and> \<bar>snd (1 :: int, 0 :: int)\<bar> \<le> 2 ^ 24 \<and>
   hand_geometry small_cv [(1, 0)] = Inr (1, 0, 0) \<and>
   count_fingers small_cv [[0, 255, 0]] [(1, 0)] = Inr 0"
proof -
  have a: "concat [[0, 255, 0 :: 8 word]] \<noteq> []" by simp
  have b: "\<bar>fst (1 :: int, 0 :: int)\<bar> \<le> 2 ^ 24" and c: "\<bar>snd (1 :: int, 0 :: int)\<bar> \<le> 2 ^ 24"
    by simp_all
  from single_point_contour [OF a b c, of small_cv] show ?thesis
    using a by simp
qed

text \<open>
  C4: a contour of zero points or of zero area passed to \<open>count_fingers\<close> is skipped
  without a fault and adds 0 to the count. As stated the claim fails: the code has no
  such guard. For a contour of zero points there is no hull, and the lookup of the
  extreme points raises \<^verbatim>\<open>TypeError\<close>; and the contour of the two points (2, 0) and
  (2, 6), which has the area 0, is processed like any other: on the sample mask the
  call returns the count 1.
\<close>

theorem degenerate_contours_counterexample:
  "count_fingers small_cv sample_mask [] = Inl TypeError \<and>
   sample_hand \<noteq> [] \<and> contourArea sample_hand = 0 \<and>
   count_fingers small_cv sample_mask sample_hand = Inr 1"
proof -
  have "count_fingers small_cv sample_mask [] = Inl TypeError"
    by (simp add: count_fingers_def convexHull_def)
  moreover have "sample_hand \<noteq> []" by (simp add: sample_hand_def)
  ultimately show ?thesis using sample_area sample_count by simp
qed

text \<open>
  C4, amended: \<open>count_fingers\<close> skips no contour. A contour of zero points makes the
  call fault with \<^verbatim>\<open>TypeError\<close>. For a mask of at least one pixel, a contour whose
  hull is not empty and has coordinates of at most \<open>2 ^ 21\<close> in absolute value, of zero
  area or not, is processed by the regular ring test: the
  call returns the number of contours of the ring-intersected mask that pass the
  finger test, and that number need not be 0, as for the sample contour of area 0,
  where it is 1.
\<close>

theorem degenerate_contours:
  "count_fingers cv thresholded [] = Inl TypeError \<and>
   (concat thresholded \<noteq> [] \<and> convexHull cv hand = Some conv_hull \<and> conv_hull \<noteq> [] \<and>
    (\<forall>q\<in>set conv_hull. \<bar>fst q\<bar> \<le> 2 ^ 21 \<and> \<bar>snd q\<bar> \<le> 2 ^ 21) \<longrightarrow>
      (\<exists>cX cY radius roi.
         hand_geometry cv conv_hull = Inr (cX, cY, radius) \<and>
         circular_roi cv thresholded (cX, cY) radius = Inr (Some roi) \<and>
         count_fingers cv thresholded hand =
           Inr (int (length (filter (spec_is_finger cY radius)
                               (findContours cv roi RETR_EXTERNAL CHAIN_APPROX_NONE)))))) \<and>
   contourArea sample_hand = 0 \<and>
   count_fingers small_cv sample_mask sample_hand = Inr 1"
proof -
  have "count_fingers cv thresholded [] = Inl TypeError"
    by (simp add: count_fingers_def convexHull_def)
  moreover have "\<exists>cX cY radius roi.
         hand_geometry cv conv_hull = Inr (cX, cY, radius) \<and>
         circular_roi cv thresholded (cX, cY) radius = Inr (Some roi) \<and>
         count_fingers cv thresholded hand =
           Inr (int (length (filter (spec_is_finger cY radius)
                               (findContours cv roi RETR_EXTERNAL CHAIN_APPROX_NONE))))"
    if "concat thresholded \<noteq> []" "convexHull cv hand = Some conv_hull" "conv_hull \<noteq> []"
      "\<forall>q\<in>set conv_hull. \<bar>fst q\<bar> \<le> 2 ^ 21 \<and> \<bar>snd q\<bar> \<le> 2 ^ 21"
    using count_fingers_spec [OF that] by blast
  ultimately show ?thesis using sample_area sample_count by blast
qed

theorem degenerate_contours_witness:
  "concat sample_mask \<noteq> [] \<and> convexHull small_cv sample_hand = Some sample_hand \<and>
   sample_hand \<noteq> [] \<and> contourArea sample_hand = 0 \<and>
   count_fingers small_cv sample_mask [] = Inl TypeError \<and>
   (\<exists>cX cY radius roi.
      hand_geometry small_cv sample_hand = Inr (cX, cY, radius) \<and>
      circular_roi small_cv sample_mask (cX, cY) radius = Inr (Some roi) \<and>
      count_fingers small_cv sample_mask sample_hand =
        Inr (int (length (filter (spec_is_finger cY radius)
                            (findContours small_cv roi RETR_EXTERNAL CHAIN_APPROX_NONE)))))"
proof -
  have h: "convexHull small_cv sample_hand = Some sample_hand"
    by (simp add: convexHull_def small_cv_def sample_hand_def)
  have n: "sample_hand \<noteq> []" by (simp add: sample_hand_def)
  have b: "\<forall>q\<in>set sample_hand. \<bar>fst q\<bar> \<le> 2 ^ 21 \<and> \<bar>snd q\<bar> \<le> 2 ^ 21"
    by (simp add: sample_hand_def)
  from degenerate_contours [of small_cv sample_mask sample_hand sample_hand] show ?thesis
    using h n b sample_area sample_mask_pixels by blast
qed

section \<open>Properties of the session loop\<close>

lemma tick_keeps_background:
  assumes "60 \<le> num_frames s" and "tick cv gray s = Inr (r, s')"
  shows "background s' = background s \<and> num_frames s' = num_frames s + 1"
  using assms
  by (auto simp: tick_def split: option.splits sum.splits prod.splits)

lemma sample_tick_hand:
  "tick small_cv [[0, 200, 0]] \<lparr>background = Some [[0, 0, 0]], num_frames = 60\<rparr>
     = Inr (Fingers 0, \<lparr>background = Some [[0, 0, 0]], num_frames = 61\<rparr>)"
proof -
  have s: "segment small_cv [[0, 200, 0]] [[0, 0, 0]] 25 = Inr (Some ([[0, 255, 0]], [(1, 0)]))"
    by (simp add: segment_def absdiff_def shape_def astype_uint8_def py_int_def absdiff_px_def
        threshold_def py_array_def findContours_def small_cv_def isolated_pixels_def py_max_def)
  have c: "count_fingers small_cv [[0, 255, 0]] [(1, 0)] = Inr 0"
    using single_point_count [of "[[0, 255, 0]]" "(1, 0)" small_cv]
    by (simp add: exact_coordinate_def)
  show ?thesis by (simp add: tick_def s c)
qed

lemma sample_tick_no_hand:
  "tick small_cv [[0, 0, 0]] \<lparr>background = Some [[0, 0, 0]], num_frames = 61\<rparr>
     = Inr (NoHand, \<lparr>background = Some [[0, 0, 0]], num_frames = 62\<rparr>)"
proof -
  have s: "segment small_cv [[0, 0, 0]] [[0, 0, 0]] 25 = Inr None"
    by (simp add: segment_def absdiff_def shape_def astype_uint8_def py_int_def absdiff_px_def
        threshold_def py_array_def findContours_def small_cv_def isolated_pixels_def)
  show ?thesis by (simp add: tick_def s)
qed

text \<open>
  C9: \<open>segment\<close> returns its results without a new value for the background it reads,
  and once the warm-up is over (60 frames counted) no pass of the loop writes the
  background: after any number of further frames that the session handles, the
  background is the one the warm-up left.
\<close>

theorem background_frozen:
  assumes "60 \<le> num_frames s" and "run cv frames s = Inr s'"
  shows "background s' = background s"
  using assms
proof (induction frames arbitrary: s)
  case Nil
  then show ?case by simp
next
  case (Cons gray rest)
  from Cons.prems(2) obtain r s1 where t: "tick cv gray s = Inr (r, s1)"
    and rest: "run cv rest s1 = Inr s'"
    by (auto split: sum.splits prod.splits)
  from tick_keeps_background [OF Cons.prems(1) t]
  have b: "background s1 = background s" and n: "60 \<le> num_frames s1"
    using Cons.prems(1) by simp_all
  from Cons.IH [OF n rest] b show ?case by simp
qed

theorem background_frozen_witness:
  "(60::nat) \<le> num_frames \<lparr>background = Some [[0, 0, 0]], num_frames = 60\<rparr> \<and>
   run small_cv [[[0, 200, 0]], [[0, 0, 0]]] \<lparr>background = Some [[0, 0, 0]], num_frames = 60\<rparr>
     = Inr \<lparr>background = Some [[0, 0, 0]], num_frames = 62\<rparr> \<and>
   background \<lparr>background = Some [[0, 0, 0 :: real]], num_frames = 62\<rparr>
     = background \<lparr>background = Some [[0, 0, 0]], num_frames = 60\<rparr>"
proof -
  have n: "(60::nat) \<le> num_frames \<lparr>background = Some [[0, 0, 0]], num_frames = 60\<rparr>"
    by simp
  have r: "run small_cv [[[0, 200, 0]], [[0, 0, 0]]] \<lparr>background = Some [[0, 0, 0]], num_frames = 60\<rparr>
     = Inr \<lparr>background = Some [[0, 0, 0]], num_frames = 62\<rparr>"
    by (simp add: sample_tick_hand sample_tick_no_hand)
  from background_frozen [OF n r] show ?thesis using n r by simp
qed

end
